theory Spec2Isabelle
  imports Main "HOL-Library.Word"
begin

unbundle bit_operations_syntax

section \<open>Strings and tokens\<close>

text \<open>
  An \<open>AtomicString\<close> is a nullable interned string: \<open>None\<close> is \<open>g_null_atom\<close>,
  \<open>Some []\<close> is \<open>g_empty_atom\<close>, \<open>Some ''*''\<close> is \<open>g_star_atom\<close>. Equality of
  two atomic strings distinguishes the null string from the empty one.
\<close>

type_synonym AtomicString = "string option"

definition g_null_atom :: AtomicString where
  "g_null_atom = None"

definition g_empty_atom :: AtomicString where
  "g_empty_atom = Some []"

definition g_star_atom :: AtomicString where
  "g_star_atom = Some ''*''"

definition IsNull :: "AtomicString \<Rightarrow> bool" where
  "IsNull s = (s = None)"

definition IsEmpty :: "AtomicString \<Rightarrow> bool" where
  "IsEmpty s = (s = None \<or> s = Some [])"

text \<open>
  Modelled from the spec: the ASCII case folding of the string library
  (\<open>LowerASCII\<close>, \<open>EqualIgnoringASCIICase\<close>, \<open>IsASCIIAlphaCaselessEqual\<close>), which
  is declared outside the parser's source file.
\<close>

definition ToASCIILower :: "char \<Rightarrow> char" where
  "ToASCIILower c =
     (let n = (of_char c :: nat) in if 65 \<le> n \<and> n \<le> 90 then char_of (n + 32) else c)"

definition LowerASCII :: "AtomicString \<Rightarrow> AtomicString" where
  "LowerASCII s = map_option (map ToASCIILower) s"

definition EqualIgnoringASCIICase :: "string \<Rightarrow> string \<Rightarrow> bool" where
  "EqualIgnoringASCIICase a b = (map ToASCIILower a = map ToASCIILower b)"

definition IsASCIIAlphaCaselessEqual :: "char \<Rightarrow> char \<Rightarrow> bool" where
  "IsASCIIAlphaCaselessEqual c lower = (ToASCIILower c = lower)"

text \<open>
  The token model of the upstream tokenizer. A number or dimension token carries its
  numeric value type, its sign and its value; the parser reads the value of
  integer-typed tokens only, so the value is an integer here.
\<close>

datatype CSSParserTokenType =
    kIdentToken | kFunctionToken | kAtKeywordToken | kHashToken | kUrlToken
  | kBadUrlToken | kDelimiterToken | kNumberToken | kPercentageToken | kDimensionToken
  | kIncludeMatchToken | kDashMatchToken | kPrefixMatchToken | kSuffixMatchToken
  | kSubstringMatchToken | kColumnToken | kUnicodeRangeToken | kWhitespaceToken
  | kCDOToken | kCDCToken | kColonToken | kSemicolonToken | kCommaToken
  | kLeftParenthesisToken | kRightParenthesisToken | kLeftBracketToken
  | kRightBracketToken | kLeftBraceToken | kRightBraceToken | kStringToken
  | kBadStringToken | kEOFToken | kCommentToken

datatype NumericValueType = kIntegerValueType | kNumberValueType

datatype NumericSign = kNoSign | kPlusSign | kMinusSign

datatype HashTokenType = kHashTokenId | kHashTokenUnrestricted

datatype BlockType = kNotBlock | kBlockStart | kBlockEnd

datatype CSSParserToken =
    IdentToken string
  | FunctionToken string
  | AtKeywordToken string
  | HashToken HashTokenType string
  | UrlToken string
  | StringToken string
  | DelimiterToken char
  | NumberToken NumericValueType NumericSign int
  | PercentageToken NumericSign int
  | DimensionToken NumericValueType NumericSign int string
  | OtherToken CSSParserTokenType

text \<open>
  \<open>OtherToken\<close> holds the token types that carry no data (whitespace, colon, comma,
  brackets, match operators, end of file and the rest).
\<close>

fun GetType :: "CSSParserToken \<Rightarrow> CSSParserTokenType" where
  "GetType (IdentToken _) = kIdentToken"
| "GetType (FunctionToken _) = kFunctionToken"
| "GetType (AtKeywordToken _) = kAtKeywordToken"
| "GetType (HashToken _ _) = kHashToken"
| "GetType (UrlToken _) = kUrlToken"
| "GetType (StringToken _) = kStringToken"
| "GetType (DelimiterToken _) = kDelimiterToken"
| "GetType (NumberToken _ _ _) = kNumberToken"
| "GetType (PercentageToken _ _) = kPercentageToken"
| "GetType (DimensionToken _ _ _ _) = kDimensionToken"
| "GetType (OtherToken ty) = ty"

fun Value :: "CSSParserToken \<Rightarrow> string" where
  "Value (IdentToken s) = s"
| "Value (FunctionToken s) = s"
| "Value (AtKeywordToken s) = s"
| "Value (HashToken _ s) = s"
| "Value (UrlToken s) = s"
| "Value (StringToken s) = s"
| "Value (DimensionToken _ _ _ unit) = unit"
| "Value _ = []"

fun Delimiter :: "CSSParserToken \<Rightarrow> char" where
  "Delimiter (DelimiterToken c) = c"
| "Delimiter _ = CHR 0x00"

fun NumericValue :: "CSSParserToken \<Rightarrow> int" where
  "NumericValue (NumberToken _ _ v) = v"
| "NumericValue (PercentageToken _ v) = v"
| "NumericValue (DimensionToken _ _ v _) = v"
| "NumericValue _ = 0"

fun GetNumericValueType :: "CSSParserToken \<Rightarrow> NumericValueType" where
  "GetNumericValueType (NumberToken ty _ _) = ty"
| "GetNumericValueType (DimensionToken ty _ _ _) = ty"
| "GetNumericValueType _ = kNumberValueType"

fun GetNumericSign :: "CSSParserToken \<Rightarrow> NumericSign" where
  "GetNumericSign (NumberToken _ sg _) = sg"
| "GetNumericSign (PercentageToken sg _) = sg"
| "GetNumericSign (DimensionToken _ sg _ _) = sg"
| "GetNumericSign _ = kNoSign"

fun GetHashTokenType :: "CSSParserToken \<Rightarrow> HashTokenType" where
  "GetHashTokenType (HashToken h _) = h"
| "GetHashTokenType _ = kHashTokenUnrestricted"

definition GetBlockType :: "CSSParserToken \<Rightarrow> BlockType" where
  "GetBlockType t =
     (if GetType t = kFunctionToken \<or> GetType t = kLeftParenthesisToken
         \<or> GetType t = kLeftBracketToken \<or> GetType t = kLeftBraceToken then kBlockStart
      else if GetType t = kRightParenthesisToken \<or> GetType t = kRightBracketToken
         \<or> GetType t = kRightBraceToken then kBlockEnd
      else kNotBlock)"

section \<open>Token ranges\<close>

text \<open>
  Modelled from the spec: \<open>CSSParserTokenRange\<close>, declared outside the parser's source
  file. A range is the list of the tokens not yet consumed. Peeking or consuming at
  the end yields the end-of-file token and leaves the range as it is; a block is
  consumed from its opening token to the matching closing token (or to the end of the
  range when it is never closed) and its contents are returned as a range of their own.
\<close>

type_synonym CSSParserTokenRange = "CSSParserToken list"

definition AtEnd :: "CSSParserTokenRange \<Rightarrow> bool" where
  "AtEnd rng = (rng = [])"

definition Peek :: "CSSParserTokenRange \<Rightarrow> CSSParserToken" where
  "Peek rng = (case rng of [] \<Rightarrow> OtherToken kEOFToken | t # _ \<Rightarrow> t)"

definition PeekAt :: "nat \<Rightarrow> CSSParserTokenRange \<Rightarrow> CSSParserToken" where
  "PeekAt offset rng = Peek (drop offset rng)"

definition Consume :: "CSSParserTokenRange \<Rightarrow> CSSParserToken \<times> CSSParserTokenRange" where
  "Consume rng = (case rng of [] \<Rightarrow> (OtherToken kEOFToken, []) | t # ts \<Rightarrow> (t, ts))"

fun ConsumeWhitespace :: "CSSParserTokenRange \<Rightarrow> CSSParserTokenRange" where
  "ConsumeWhitespace [] = []"
| "ConsumeWhitespace (t # ts) =
     (if GetType t = kWhitespaceToken then ConsumeWhitespace ts else t # ts)"

definition ConsumeIncludingWhitespace ::
  "CSSParserTokenRange \<Rightarrow> CSSParserToken \<times> CSSParserTokenRange" where
  "ConsumeIncludingWhitespace rng =
     (let (result, rng1) = Consume rng in (result, ConsumeWhitespace rng1))"

text \<open>
  The scan of \<open>ConsumeBlock\<close> after the opening token: \<open>level\<close> counts the blocks
  opened inside the block being consumed. It returns the block's contents and the
  range after the closing token.
\<close>

fun ConsumeBlock_scan ::
  "nat \<Rightarrow> CSSParserTokenRange \<Rightarrow> CSSParserTokenRange \<times> CSSParserTokenRange" where
  "ConsumeBlock_scan level [] = ([], [])"
| "ConsumeBlock_scan level (t # ts) =
     (if GetBlockType t = kBlockStart then
        (let (block, rest) = ConsumeBlock_scan (Suc level) ts in (t # block, rest))
      else if GetBlockType t = kBlockEnd then
        (case level of
           0 \<Rightarrow> ([], ts)
         | Suc l \<Rightarrow> (let (block, rest) = ConsumeBlock_scan l ts in (t # block, rest)))
      else (let (block, rest) = ConsumeBlock_scan level ts in (t # block, rest)))"

definition ConsumeBlock ::
  "CSSParserTokenRange \<Rightarrow> CSSParserTokenRange \<times> CSSParserTokenRange" where
  "ConsumeBlock rng = (case rng of [] \<Rightarrow> ([], []) | t # ts \<Rightarrow> ConsumeBlock_scan 0 ts)"

text \<open>
  \<open>ConsumeNestedArgument\<close>: consume up to the next comma outside any block, or to the
  end of the range; the tokens consumed are the argument.
\<close>

function ConsumeNestedArgument ::
  "CSSParserTokenRange \<Rightarrow> CSSParserTokenRange \<times> CSSParserTokenRange" where
  "ConsumeNestedArgument rng =
     (if \<not> AtEnd rng \<and> GetType (Peek rng) \<noteq> kCommaToken then
        (if GetBlockType (Peek rng) = kBlockStart then
           (let (block, rng1) = ConsumeBlock rng;
                (argument, rng2) = ConsumeNestedArgument rng1
            in (take (length rng - length rng1) rng @ argument, rng2))
         else
           (let (token, rng1) = Consume rng;
                (argument, rng2) = ConsumeNestedArgument rng1
            in (token # argument, rng2)))
      else ([], rng))"
  by pat_completeness auto

definition AtEndIgnoringWhitespace :: "CSSParserTokenRange \<Rightarrow> bool" where
  "AtEndIgnoringWhitespace rng = AtEnd (ConsumeWhitespace rng)"

lemma ConsumeWhitespace_length: "length (ConsumeWhitespace rng) \<le> length rng"
  by (induction rng) auto

lemma ConsumeBlock_scan_length:
  "length (fst (ConsumeBlock_scan level rng)) + length (snd (ConsumeBlock_scan level rng))
     \<le> length rng"
  by (induction level rng rule: ConsumeBlock_scan.induct)
     (auto split: prod.splits nat.splits)

lemma ConsumeBlock_length:
  "rng \<noteq> [] \<Longrightarrow>
   length (fst (ConsumeBlock rng)) + length (snd (ConsumeBlock rng)) < length rng"
  using ConsumeBlock_scan_length [of 0 "tl rng"]
  by (cases rng) (auto simp: ConsumeBlock_def)

termination ConsumeNestedArgument
proof (relation "measure length", goal_cases)
  case 1
  show ?case by simp
next
  case (2 rng x block rng1)
  then have ne: "rng \<noteq> []" and eq: "rng1 = snd (ConsumeBlock rng)"
    by (auto simp: AtEnd_def dest: sym)
  from ConsumeBlock_length [OF ne] eq show ?case by simp
next
  case (3 rng x token rng1)
  then show ?case by (cases rng) (auto simp: AtEnd_def Consume_def)
qed


section \<open>Selectors\<close>

text \<open>
  The enumerations of \<open>CSSSelector\<close>. \<open>PseudoType\<close> lists the pseudo types the
  parser names. \<open>kSubSelector\<close> is the first relation, the one a combinator test
  reads as "no combinator".
\<close>

datatype PseudoType =
    kPseudoUnknown | kPseudoActive | kPseudoAfter | kPseudoAny | kPseudoBefore
  | kPseudoBlinkInternalElement | kPseudoCornerPresent | kPseudoCue | kPseudoDecrement
  | kPseudoDir | kPseudoDisabled | kPseudoDoubleButton | kPseudoEnabled | kPseudoEnd
  | kPseudoFileSelectorButton | kPseudoFocus | kPseudoFocusVisible | kPseudoFocusWithin
  | kPseudoHas | kPseudoHighlight | kPseudoHorizontal | kPseudoHost | kPseudoHostContext
  | kPseudoHover | kPseudoIncrement | kPseudoIs | kPseudoLang | kPseudoMarker
  | kPseudoNoButton | kPseudoNot | kPseudoNthChild | kPseudoNthLastChild
  | kPseudoNthLastOfType | kPseudoNthOfType | kPseudoPageTransitionContainer
  | kPseudoPageTransitionImageWrapper | kPseudoPageTransitionIncomingImage
  | kPseudoPageTransitionOutgoingImage | kPseudoPart | kPseudoRelativeAnchor
  | kPseudoResizer | kPseudoScrollbar | kPseudoScrollbarButton | kPseudoScrollbarCorner
  | kPseudoScrollbarThumb | kPseudoScrollbarTrack | kPseudoScrollbarTrackPiece
  | kPseudoSelection | kPseudoSingleButton | kPseudoSlotted | kPseudoStart | kPseudoState
  | kPseudoToggle | kPseudoVertical | kPseudoWebKitCustomElement | kPseudoWhere
  | kPseudoWindowInactive

datatype MatchType =
    kUnknown | kTag | kId | kClass | kPseudoClass | kPseudoElement | kPagePseudoClass
  | kAttributeExact | kAttributeSet | kAttributeHyphen | kAttributeList
  | kAttributeContain | kAttributeBegin | kAttributeEnd

datatype RelationType =
    kSubSelector | kDescendant | kChild | kDirectAdjacent | kIndirectAdjacent
  | kUAShadow | kShadowSlot | kShadowPart
  | kRelativeDescendant | kRelativeChild | kRelativeDirectAdjacent
  | kRelativeIndirectAdjacent

datatype AttributeMatchType = kCaseSensitive | kCaseInsensitive | kCaseSensitiveAlways

datatype CSSParserMode =
    kHTMLStandardMode | kHTMLQuirksMode | kSVGAttributeMode | kCSSFontFaceRuleMode
  | kUASheetMode

datatype ToggleState = ToggleStateName AtomicString | ToggleStateInteger int

text \<open>A C++ \<open>int\<close>: a 32-bit word read as two's complement (\<open>sint\<close>).\<close>

type_synonym int32 = "32 word"

record QualifiedName =
  Prefix :: AtomicString
  LocalName :: AtomicString
  NamespaceURI :: AtomicString

definition QName :: "AtomicString \<Rightarrow> AtomicString \<Rightarrow> AtomicString \<Rightarrow> QualifiedName" where
  "QName p l n = \<lparr>Prefix = p, LocalName = l, NamespaceURI = n\<rparr>"

text \<open>
  The fields of one simple selector that the parser writes. \<open>relation\<close> is the
  relation of the simple selector to the next one of its tag history.
\<close>

record SelectorFields =
  match :: MatchType
  pseudo_type :: PseudoType
  relation :: RelationType
  selector_value :: AtomicString
  serializing_value :: AtomicString
  tag_q_name :: QualifiedName
  is_implicit :: bool
  attribute :: QualifiedName
  attribute_match :: AttributeMatchType
  argument :: AtomicString
  nth :: "int32 \<times> int32"
  part_names :: "AtomicString list option"
  toggle :: "(AtomicString \<times> ToggleState option) option"
  contains_pseudo_inside_has :: bool
  contains_complex_logical_combinations_inside_has :: bool

text \<open>
  A simple selector, with the selector list of a functional pseudo-class: \<open>None\<close> when
  no list was set, \<open>Some []\<close> for the empty (invalid) list. A \<open>CSSParserSelector\<close>
  is the linked tag history starting at one simple selector: a non-empty list, head
  first; the null pointer is \<open>None\<close>.
\<close>

datatype CSSSelector =
  CSSSelector (selector_data: SelectorFields) (SelectorList: "CSSSelector list list option")

type_synonym CSSParserSelector = "CSSSelector list"
type_synonym CSSSelectorVector = "CSSParserSelector list"
type_synonym CSSSelectorList = "CSSParserSelector list"

definition Match :: "CSSSelector \<Rightarrow> MatchType" where
  "Match s = match (selector_data s)"

definition GetPseudoType :: "CSSSelector \<Rightarrow> PseudoType" where
  "GetPseudoType s = pseudo_type (selector_data s)"

definition Relation :: "CSSSelector \<Rightarrow> RelationType" where
  "Relation s = relation (selector_data s)"

definition update_fields :: "(SelectorFields \<Rightarrow> SelectorFields) \<Rightarrow> CSSSelector \<Rightarrow> CSSSelector" where
  "update_fields f s = CSSSelector (f (selector_data s)) (SelectorList s)"

text \<open>The default-constructed selector and the selector constructed from a tag name.\<close>

definition NewSelector :: CSSSelector where
  "NewSelector = CSSSelector
     \<lparr>match = kUnknown, pseudo_type = kPseudoUnknown, relation = kSubSelector,
      selector_value = g_null_atom, serializing_value = g_null_atom,
      tag_q_name = QName g_null_atom g_null_atom g_null_atom, is_implicit = False,
      attribute = QName g_null_atom g_null_atom g_null_atom,
      attribute_match = kCaseSensitive, argument = g_null_atom, nth = (0, 0),
      part_names = None, toggle = None, contains_pseudo_inside_has = False,
      contains_complex_logical_combinations_inside_has = False\<rparr> None"

definition TagSelector :: "QualifiedName \<Rightarrow> bool \<Rightarrow> CSSSelector" where
  "TagSelector tag implicit =
     update_fields (\<lambda>f. f\<lparr>match := kTag, tag_q_name := tag, is_implicit := implicit\<rparr>)
       NewSelector"

definition SetMatch :: "MatchType \<Rightarrow> CSSSelector \<Rightarrow> CSSSelector" where
  "SetMatch m = update_fields (\<lambda>f. f\<lparr>match := m\<rparr>)"

definition SetRelation :: "RelationType \<Rightarrow> CSSSelector \<Rightarrow> CSSSelector" where
  "SetRelation r = update_fields (\<lambda>f. f\<lparr>relation := r\<rparr>)"

text \<open>
  Modelled from the spec: the setters of \<open>CSSSelector\<close>, declared outside the parser's
  source file. \<open>SetValue\<close> keeps the value as written for serialization and matches
  on its lower-case form when asked to (quirks mode).
\<close>

definition SetValue :: "AtomicString \<Rightarrow> bool \<Rightarrow> CSSSelector \<Rightarrow> CSSSelector" where
  "SetValue v match_lower_case =
     update_fields (\<lambda>f. f\<lparr>selector_value := (if match_lower_case then LowerASCII v else v),
                           serializing_value := v\<rparr>)"

definition SetAttribute :: "QualifiedName \<Rightarrow> AttributeMatchType \<Rightarrow> CSSSelector \<Rightarrow> CSSSelector" where
  "SetAttribute q m = update_fields (\<lambda>f. f\<lparr>attribute := q, attribute_match := m\<rparr>)"

definition SetArgument :: "AtomicString \<Rightarrow> CSSSelector \<Rightarrow> CSSSelector" where
  "SetArgument a = update_fields (\<lambda>f. f\<lparr>argument := a\<rparr>)"

definition SetNth :: "int32 \<Rightarrow> int32 \<Rightarrow> CSSSelector \<Rightarrow> CSSSelector" where
  "SetNth a b = update_fields (\<lambda>f. f\<lparr>nth := (a, b)\<rparr>)"

definition SetPartNames :: "AtomicString list \<Rightarrow> CSSSelector \<Rightarrow> CSSSelector" where
  "SetPartNames ps = update_fields (\<lambda>f. f\<lparr>part_names := Some ps\<rparr>)"

definition SetToggle :: "AtomicString \<Rightarrow> ToggleState option \<Rightarrow> CSSSelector \<Rightarrow> CSSSelector" where
  "SetToggle name v = update_fields (\<lambda>f. f\<lparr>toggle := Some (name, v)\<rparr>)"

definition SetSelectorList :: "CSSSelectorList \<Rightarrow> CSSSelector \<Rightarrow> CSSSelector" where
  "SetSelectorList l s = CSSSelector (selector_data s) (Some l)"

definition SetContainsPseudoInsideHasPseudoClass :: "CSSSelector \<Rightarrow> CSSSelector" where
  "SetContainsPseudoInsideHasPseudoClass =
     update_fields (\<lambda>f. f\<lparr>contains_pseudo_inside_has := True\<rparr>)"

definition SetContainsComplexLogicalCombinationsInsideHasPseudoClass ::
  "CSSSelector \<Rightarrow> CSSSelector" where
  "SetContainsComplexLogicalCombinationsInsideHasPseudoClass =
     update_fields (\<lambda>f. f\<lparr>contains_complex_logical_combinations_inside_has := True\<rparr>)"

text \<open>
  Modelled from the spec: the list operations of \<open>CSSParserSelector\<close> and of
  \<open>CSSSelectorList\<close>, declared outside the parser's source file. \<open>AppendTagHistory\<close>
  walks to the end of the tag history, sets the relation there and links the other
  selector after it; \<open>PrependTagSelector\<close> puts a tag selector in front; a selector
  list is valid when it has a first selector.
\<close>

definition AppendTagHistory ::
  "RelationType \<Rightarrow> CSSParserSelector \<Rightarrow> CSSParserSelector \<Rightarrow> CSSParserSelector" where
  "AppendTagHistory r selector this =
     (case rev this of
        [] \<Rightarrow> selector
      | e # front \<Rightarrow> rev front @ [SetRelation r e] @ selector)"

definition PrependTagSelector ::
  "QualifiedName \<Rightarrow> bool \<Rightarrow> CSSParserSelector \<Rightarrow> CSSParserSelector" where
  "PrependTagSelector tag implicit this = TagSelector tag implicit # this"

definition IsValid :: "CSSSelectorList \<Rightarrow> bool" where
  "IsValid l = (l \<noteq> [])"

definition HasOneSelector :: "CSSSelectorList \<Rightarrow> bool" where
  "HasOneSelector l = (length l = 1)"

text \<open>
  Modelled from the spec: \<open>IsHostPseudoSelector\<close>, declared outside the parser's source
  file: the selector is a host pseudo (\<open>:host\<close> or \<open>:host-context\<close>).
\<close>

definition IsHostPseudoSelector :: "CSSSelector \<Rightarrow> bool" where
  "IsHostPseudoSelector s =
     (GetPseudoType s = kPseudoHost \<or> GetPseudoType s = kPseudoHostContext)"

section \<open>The parser's surroundings\<close>

text \<open>
  What the parser consumes from its collaborators, taken as parameters: the pseudo-type
  name table behind \<open>UpdatePseudoType\<close> (from the match type, the name and whether
  the pseudo has arguments to the match type, the pseudo type and the stored value),
  the predicates of \<open>CSSSelector\<close> on shadow-crossing and on pseudo-elements legal
  after \<open>::part()\<close> and \<open>::slotted()\<close>, the universal selector atom and the
  any-name, strict integer parsing, the custom-ident test, and the runtime features.
\<close>

record Externals =
  UpdatePseudoType :: "MatchType \<Rightarrow> string \<Rightarrow> bool \<Rightarrow> MatchType \<times> PseudoType \<times> AtomicString"
  TreeAbidingPseudoElementType :: "PseudoType \<Rightarrow> bool"
  IsAllowedAfterPart :: "CSSSelector \<Rightarrow> bool"
  NeedsImplicitShadowCombinatorForMatching :: "CSSSelector \<Rightarrow> bool"
  GetImplicitShadowCombinatorForMatching :: "CSSSelector \<Rightarrow> RelationType"
  UniversalSelectorAtom :: AtomicString
  AnyQName :: QualifiedName
  ToIntStrict :: "string \<Rightarrow> int32 \<times> bool"
  IsCustomIdent :: "string \<Rightarrow> bool"
  CSSPseudoHasEnabled :: bool
  CSSMarkerNestedPseudoElementEnabled :: bool
  CSSCaseSensitiveSelectorEnabled :: bool

text \<open>
  Modelled from the spec: \<open>IsTreeAbidingPseudoElement\<close>, declared outside the parser's
  source file: a pseudo-element whose type is tree-abiding.
\<close>

definition IsTreeAbidingPseudoElement :: "Externals \<Rightarrow> CSSSelector \<Rightarrow> bool" where
  "IsTreeAbidingPseudoElement ext s =
     (Match s = kPseudoElement \<and> TreeAbidingPseudoElementType ext (GetPseudoType s))"

record CSSParserContext =
  Mode :: CSSParserMode
  IsHTMLDocument :: bool

text \<open>
  Modelled from the spec: the stylesheet context, declared outside the parser's source
  file: a default namespace and a table from prefixes to namespace URIs, whose lookup
  yields the null atom for an unregistered prefix.
\<close>

record StyleSheetContents =
  DefaultNamespace_of :: AtomicString
  namespaces :: "string \<rightharpoonup> string"

definition NamespaceURIFromPrefix :: "StyleSheetContents \<Rightarrow> AtomicString \<Rightarrow> AtomicString" where
  "NamespaceURIFromPrefix sheet prefix =
     (case prefix of None \<Rightarrow> g_null_atom | Some p \<Rightarrow> namespaces sheet p)"

definition IsQuirksModeBehavior :: "CSSParserMode \<Rightarrow> bool" where
  "IsQuirksModeBehavior m = (m = kHTMLQuirksMode)"

text \<open>The members of the parser that a parse never changes.\<close>

record ParserEnv =
  parser_context :: CSSParserContext
  style_sheet :: "StyleSheetContents option"
  externals :: Externals

text \<open>The flags of the parser, threaded through every consuming function.\<close>

record CSSSelectorParser =
  failed_parsing :: bool
  disallow_pseudo_elements :: bool
  resist_default_namespace :: bool
  ignore_default_namespace :: bool
  inside_compound_pseudo :: bool
  is_inside_has_argument :: bool
  is_inside_logical_combination_in_has_argument :: bool
  found_pseudo_in_has_argument :: bool
  found_complex_logical_combinations_in_has_argument :: bool
  restricting_pseudo_element :: PseudoType

definition NewParser :: CSSSelectorParser where
  "NewParser =
     \<lparr>failed_parsing = False, disallow_pseudo_elements = False,
      resist_default_namespace = False, ignore_default_namespace = False,
      inside_compound_pseudo = False, is_inside_has_argument = False,
      is_inside_logical_combination_in_has_argument = False,
      found_pseudo_in_has_argument = False,
      found_complex_logical_combinations_in_has_argument = False,
      restricting_pseudo_element = kPseudoUnknown\<rparr>"

section \<open>An+B\<close>

definition int_min :: int32 where
  "int_min = - (2 ^ 31)"

definition int_max :: int32 where
  "int_max = 2 ^ 31 - 1"

text \<open>\<open>ClampTo<int>\<close>: the value, saturated to the range of a 32-bit integer.\<close>

definition ClampTo_int :: "int \<Rightarrow> int32" where
  "ClampTo_int v =
     (if 2147483647 \<le> v then int_max
      else if v \<le> - 2147483648 then int_min
      else word_of_int v)"

text \<open>
  \<open>ConsumeANPlusB\<close>. The result is \<open>None\<close> where the source returns false. The
  source reads \<open>n_string[0]\<close> and \<open>token.Value()[0]\<close>; on an empty string the read
  is modelled as a character that is neither \<open>-\<close> nor \<open>n\<close>.
\<close>

definition ConsumeANPlusB ::
  "Externals \<Rightarrow> CSSParserTokenRange \<Rightarrow> (int32 \<times> int32) option \<times> CSSParserTokenRange" where
  "ConsumeANPlusB ext rng =
     (let (token, rng1) = Consume rng in
      if GetType token = kNumberToken \<and> GetNumericValueType token = kIntegerValueType
      then (Some (0, ClampTo_int (NumericValue token)), rng1)
      else if GetType token = kIdentToken \<and> EqualIgnoringASCIICase (Value token) ''odd''
      then (Some (2, 1), rng1)
      else if GetType token = kIdentToken \<and> EqualIgnoringASCIICase (Value token) ''even''
      then (Some (2, 0), rng1)
      else
       (let (first, n_string, rng2) =
              (if GetType token = kDelimiterToken \<and> Delimiter token = CHR ''+''
                  \<and> GetType (Peek rng1) = kIdentToken
               then (1, Value (fst (Consume rng1)), snd (Consume rng1))
               else if GetType token = kDimensionToken
                  \<and> GetNumericValueType token = kIntegerValueType
               then (ClampTo_int (NumericValue token), Value token, rng1)
               else if GetType token = kIdentToken
               then (if take 1 (Value token) = ''-''
                     then (- 1, drop 1 (Value token), rng1)
                     else (1, Value token, rng1))
               else (0, [], rng1));
            rng3 = ConsumeWhitespace rng2
        in
        if n_string = [] \<or> \<not> IsASCIIAlphaCaselessEqual (n_string ! 0) (CHR ''n'')
        then (None, rng3)
        else if length n_string > 1 \<and> n_string ! 1 \<noteq> CHR ''-''
        then (None, rng3)
        else if length n_string > 2
        then (let (second, valid) = ToIntStrict ext (drop 1 n_string)
              in (if valid then Some (first, second) else None, rng3))
        else
         (let sign0 = (if length n_string = 1 then kNoSign else kMinusSign);
              has_delimiter = (sign0 = kNoSign \<and> GetType (Peek rng3) = kDelimiterToken);
              delimiter_sign = Delimiter (fst (ConsumeIncludingWhitespace rng3));
              rng4 = (if has_delimiter then snd (ConsumeIncludingWhitespace rng3) else rng3);
              sign = (if has_delimiter
                      then (if delimiter_sign = CHR ''+'' then kPlusSign
                            else if delimiter_sign = CHR ''-'' then kMinusSign
                            else kNoSign)
                      else sign0)
          in
          if has_delimiter \<and> delimiter_sign \<noteq> CHR ''+'' \<and> delimiter_sign \<noteq> CHR ''-''
          then (None, rng4)
          else if sign = kNoSign \<and> GetType (Peek rng4) \<noteq> kNumberToken
          then (Some (first, 0), rng4)
          else
           (let (b, rng5) = Consume rng4 in
            if GetType b \<noteq> kNumberToken \<or> GetNumericValueType b \<noteq> kIntegerValueType
            then (None, rng5)
            else if (GetNumericSign b = kNoSign) = (sign = kNoSign)
            then (None, rng5)
            else
             (let second = ClampTo_int (NumericValue b) in
              if sign = kMinusSign
              then (if second = int_min then (Some (first, int_max), rng5)
                    else (Some (first, - second), rng5))
              else (Some (first, second), rng5))))))"


section \<open>Combinators, names and namespaces\<close>

text \<open>
  \<open>ConsumeCombinator\<close>: whitespace makes the fallback result a descendant
  combinator; one of the delimiters \<open>+\<close>, \<open>~\<close>, \<open>>\<close> is consumed with the
  whitespace after it.
\<close>

definition ConsumeCombinator ::
  "CSSParserTokenRange \<Rightarrow> RelationType \<times> CSSParserTokenRange" where
  "ConsumeCombinator rng =
     (let fallback_result =
            (if GetType (Peek rng) = kWhitespaceToken then kDescendant else kSubSelector);
          rng1 = ConsumeWhitespace rng
      in
      if GetType (Peek rng1) \<noteq> kDelimiterToken then (fallback_result, rng1)
      else if Delimiter (Peek rng1) = CHR ''+''
      then (kDirectAdjacent, snd (ConsumeIncludingWhitespace rng1))
      else if Delimiter (Peek rng1) = CHR ''~''
      then (kIndirectAdjacent, snd (ConsumeIncludingWhitespace rng1))
      else if Delimiter (Peek rng1) = CHR ''>''
      then (kChild, snd (ConsumeIncludingWhitespace rng1))
      else (fallback_result, rng1))"

text \<open>
  \<open>ConsumeName\<close> returns whether a qualified name was read, the name, the namespace
  prefix and the range. Where a name is followed by \<open>|\<close> and neither an identifier
  nor \<open>*\<close>, it returns false after the first name has been consumed.
\<close>

definition ConsumeName ::
  "Externals \<Rightarrow> CSSParserTokenRange
     \<Rightarrow> bool \<times> AtomicString \<times> AtomicString \<times> CSSParserTokenRange" where
  "ConsumeName ext rng =
     (let first_token = Peek rng in
      if \<not> (GetType first_token = kIdentToken
             \<or> (GetType first_token = kDelimiterToken \<and> Delimiter first_token = CHR ''*'')
             \<or> (GetType first_token = kDelimiterToken \<and> Delimiter first_token = CHR ''|''))
      then (False, g_null_atom, g_null_atom, rng)
      else
       (let (name, rng1) =
              (if GetType first_token = kIdentToken
               then (Some (Value first_token), snd (Consume rng))
               else if Delimiter first_token = CHR ''*''
               then (UniversalSelectorAtom ext, snd (Consume rng))
               else (g_empty_atom, rng))
        in
        if GetType (Peek rng1) \<noteq> kDelimiterToken \<or> Delimiter (Peek rng1) \<noteq> CHR ''|''
        then (True, name, g_null_atom, rng1)
        else
         (let namespace_prefix =
                (if name = UniversalSelectorAtom ext then g_star_atom else name)
          in
          if GetType (PeekAt 1 rng1) = kIdentToken
          then (True, Some (Value (fst (Consume (snd (Consume rng1))))), namespace_prefix,
                snd (Consume (snd (Consume rng1))))
          else if GetType (PeekAt 1 rng1) = kDelimiterToken
                  \<and> Delimiter (PeekAt 1 rng1) = CHR ''*''
          then (True, UniversalSelectorAtom ext, namespace_prefix,
                snd (Consume (snd (Consume rng1))))
          else (False, g_null_atom, g_null_atom, rng1))))"

definition DefaultNamespace :: "ParserEnv \<Rightarrow> CSSSelectorParser \<Rightarrow> AtomicString" where
  "DefaultNamespace env st =
     (case style_sheet env of
        None \<Rightarrow> g_star_atom
      | Some sheet \<Rightarrow>
          if ignore_default_namespace st then g_star_atom else DefaultNamespace_of sheet)"

definition DetermineNamespace ::
  "ParserEnv \<Rightarrow> CSSSelectorParser \<Rightarrow> AtomicString \<Rightarrow> AtomicString" where
  "DetermineNamespace env st prefix =
     (if IsNull prefix then DefaultNamespace env st
      else if IsEmpty prefix then g_empty_atom
      else if prefix = g_star_atom then g_star_atom
      else (case style_sheet env of
              None \<Rightarrow> g_null_atom
            | Some sheet \<Rightarrow> NamespaceURIFromPrefix sheet prefix))"

section \<open>Id, class and attribute selectors\<close>

definition ConsumeId ::
  "ParserEnv \<Rightarrow> CSSParserTokenRange \<Rightarrow> CSSSelector option \<times> CSSParserTokenRange" where
  "ConsumeId env rng =
     (if GetHashTokenType (Peek rng) \<noteq> kHashTokenId then (None, rng)
      else
       (let (token, rng1) = Consume rng;
            selector = SetMatch kId NewSelector
        in (Some (SetValue (Some (Value token))
                    (IsQuirksModeBehavior (Mode (parser_context env))) selector), rng1)))"

definition ConsumeClass ::
  "ParserEnv \<Rightarrow> CSSParserTokenRange \<Rightarrow> CSSSelector option \<times> CSSParserTokenRange" where
  "ConsumeClass env rng =
     (let rng1 = snd (Consume rng) in
      if GetType (Peek rng1) \<noteq> kIdentToken then (None, rng1)
      else
       (let (token, rng2) = Consume rng1;
            selector = SetMatch kClass NewSelector
        in (Some (SetValue (Some (Value token))
                    (IsQuirksModeBehavior (Mode (parser_context env))) selector), rng2)))"

text \<open>
  \<open>ConsumeAttributeMatch\<close> and \<open>ConsumeAttributeFlags\<close> set the failure flag on a
  token that is no match operator, or on an identifier that is no known flag.
\<close>

definition ConsumeAttributeMatch ::
  "CSSSelectorParser \<Rightarrow> CSSParserTokenRange
     \<Rightarrow> MatchType \<times> CSSSelectorParser \<times> CSSParserTokenRange" where
  "ConsumeAttributeMatch st rng =
     (let (token, rng1) = ConsumeIncludingWhitespace rng in
      if GetType token = kIncludeMatchToken then (kAttributeList, st, rng1)
      else if GetType token = kDashMatchToken then (kAttributeHyphen, st, rng1)
      else if GetType token = kPrefixMatchToken then (kAttributeBegin, st, rng1)
      else if GetType token = kSuffixMatchToken then (kAttributeEnd, st, rng1)
      else if GetType token = kSubstringMatchToken then (kAttributeContain, st, rng1)
      else if GetType token = kDelimiterToken \<and> Delimiter token = CHR ''=''
      then (kAttributeExact, st, rng1)
      else (kAttributeExact, st\<lparr>failed_parsing := True\<rparr>, rng1))"

definition ConsumeAttributeFlags ::
  "Externals \<Rightarrow> CSSSelectorParser \<Rightarrow> CSSParserTokenRange
     \<Rightarrow> AttributeMatchType \<times> CSSSelectorParser \<times> CSSParserTokenRange" where
  "ConsumeAttributeFlags ext st rng =
     (if GetType (Peek rng) \<noteq> kIdentToken then (kCaseSensitive, st, rng)
      else
       (let (flag, rng1) = ConsumeIncludingWhitespace rng in
        if EqualIgnoringASCIICase (Value flag) ''i'' then (kCaseInsensitive, st, rng1)
        else if EqualIgnoringASCIICase (Value flag) ''s''
                \<and> CSSCaseSensitiveSelectorEnabled ext
        then (kCaseSensitiveAlways, st, rng1)
        else (kCaseSensitive, st\<lparr>failed_parsing := True\<rparr>, rng1)))"

text \<open>
  \<open>ConsumeAttribute\<close> consumes the bracket block from the range and parses inside
  the block; the range returned is the one after the block.
\<close>

definition ConsumeAttribute ::
  "ParserEnv \<Rightarrow> CSSSelectorParser \<Rightarrow> CSSParserTokenRange
     \<Rightarrow> CSSSelector option \<times> CSSSelectorParser \<times> CSSParserTokenRange" where
  "ConsumeAttribute env st rng =
     (let (block0, rng1) = ConsumeBlock rng;
          block1 = ConsumeWhitespace block0;
          (has_name, attribute_name0, namespace_prefix, block2) = ConsumeName (externals env) block1
      in
      if \<not> has_name then (None, st, rng1)
      else if attribute_name0 = UniversalSelectorAtom (externals env) then (None, st, rng1)
      else
       (let block3 = ConsumeWhitespace block2;
            attribute_name =
              (if IsHTMLDocument (parser_context env) then LowerASCII attribute_name0
               else attribute_name0);
            namespace_uri = DetermineNamespace env st namespace_prefix
        in
        if IsNull namespace_uri then (None, st, rng1)
        else
         (let qualified_name =
                (if IsNull namespace_prefix
                 then QName g_null_atom attribute_name g_null_atom
                 else QName namespace_prefix attribute_name namespace_uri);
              selector = NewSelector
          in
          if AtEnd block3
          then (Some (SetMatch kAttributeSet (SetAttribute qualified_name kCaseSensitive selector)),
                st, rng1)
          else
           (let (m, st1, block4) = ConsumeAttributeMatch st block3;
                selector1 = SetMatch m selector;
                (attribute_value, block5) = ConsumeIncludingWhitespace block4
            in
            if GetType attribute_value \<noteq> kIdentToken \<and> GetType attribute_value \<noteq> kStringToken
            then (None, st1, rng1)
            else
             (let selector2 = SetValue (Some (Value attribute_value)) False selector1;
                  (flags, st2, block6) = ConsumeAttributeFlags (externals env) st1 block5;
                  selector3 = SetAttribute qualified_name flags selector2
              in
              if \<not> AtEnd block6 then (None, st2, rng1)
              else (Some selector3, st2, rng1))))))"

section \<open>Legality after a pseudo-element\<close>

definition IsScrollbarPseudoClass :: "PseudoType \<Rightarrow> bool" where
  "IsScrollbarPseudoClass pseudo =
     (case pseudo of
        kPseudoEnabled \<Rightarrow> True
      | kPseudoDisabled \<Rightarrow> True
      | kPseudoHover \<Rightarrow> True
      | kPseudoActive \<Rightarrow> True
      | kPseudoHorizontal \<Rightarrow> True
      | kPseudoVertical \<Rightarrow> True
      | kPseudoDecrement \<Rightarrow> True
      | kPseudoIncrement \<Rightarrow> True
      | kPseudoStart \<Rightarrow> True
      | kPseudoEnd \<Rightarrow> True
      | kPseudoDoubleButton \<Rightarrow> True
      | kPseudoSingleButton \<Rightarrow> True
      | kPseudoNoButton \<Rightarrow> True
      | kPseudoCornerPresent \<Rightarrow> True
      | kPseudoWindowInactive \<Rightarrow> True
      | _ \<Rightarrow> False)"

definition IsUserActionPseudoClass :: "PseudoType \<Rightarrow> bool" where
  "IsUserActionPseudoClass pseudo =
     (case pseudo of
        kPseudoHover \<Rightarrow> True
      | kPseudoFocus \<Rightarrow> True
      | kPseudoFocusVisible \<Rightarrow> True
      | kPseudoFocusWithin \<Rightarrow> True
      | kPseudoActive \<Rightarrow> True
      | _ \<Rightarrow> False)"

definition IsPseudoClassValidAfterPseudoElement :: "PseudoType \<Rightarrow> PseudoType \<Rightarrow> bool" where
  "IsPseudoClassValidAfterPseudoElement pseudo_class compound_pseudo_element =
     (case compound_pseudo_element of
        kPseudoResizer \<Rightarrow> IsScrollbarPseudoClass pseudo_class
      | kPseudoScrollbar \<Rightarrow> IsScrollbarPseudoClass pseudo_class
      | kPseudoScrollbarCorner \<Rightarrow> IsScrollbarPseudoClass pseudo_class
      | kPseudoScrollbarButton \<Rightarrow> IsScrollbarPseudoClass pseudo_class
      | kPseudoScrollbarThumb \<Rightarrow> IsScrollbarPseudoClass pseudo_class
      | kPseudoScrollbarTrack \<Rightarrow> IsScrollbarPseudoClass pseudo_class
      | kPseudoScrollbarTrackPiece \<Rightarrow> IsScrollbarPseudoClass pseudo_class
      | kPseudoSelection \<Rightarrow> pseudo_class = kPseudoWindowInactive
      | kPseudoPart \<Rightarrow> IsUserActionPseudoClass pseudo_class \<or> pseudo_class = kPseudoState
      | kPseudoWebKitCustomElement \<Rightarrow> IsUserActionPseudoClass pseudo_class
      | kPseudoBlinkInternalElement \<Rightarrow> IsUserActionPseudoClass pseudo_class
      | kPseudoFileSelectorButton \<Rightarrow> IsUserActionPseudoClass pseudo_class
      | _ \<Rightarrow> False)"

text \<open>
  \<open>IsSimpleSelectorValidAfterPseudoElement\<close>. The first switch of the source returns
  for no restricting pseudo-element, for \<open>::marker\<close> after \<open>::before\<close> or
  \<open>::after\<close>, for \<open>::slotted()\<close> (whatever the selector is) and for a selector
  allowed after \<open>::part()\<close>; every other case goes on to the pseudo-class checks.
\<close>

definition IsSimpleSelectorValidAfterPseudoElement ::
  "Externals \<Rightarrow> CSSSelector \<Rightarrow> PseudoType \<Rightarrow> bool" where
  "IsSimpleSelectorValidAfterPseudoElement ext simple_selector compound_pseudo_element =
     (if compound_pseudo_element = kPseudoUnknown then True
      else if (compound_pseudo_element = kPseudoAfter \<or> compound_pseudo_element = kPseudoBefore)
              \<and> GetPseudoType simple_selector = kPseudoMarker
              \<and> CSSMarkerNestedPseudoElementEnabled ext
      then True
      else if compound_pseudo_element = kPseudoSlotted
      then IsTreeAbidingPseudoElement ext simple_selector
      else if compound_pseudo_element = kPseudoPart \<and> IsAllowedAfterPart ext simple_selector
      then True
      else if Match simple_selector \<noteq> kPseudoClass then False
      else if GetPseudoType simple_selector = kPseudoIs
              \<or> GetPseudoType simple_selector = kPseudoWhere
              \<or> GetPseudoType simple_selector = kPseudoNot
              \<or> GetPseudoType simple_selector = kPseudoHas
      then True
      else IsPseudoClassValidAfterPseudoElement (GetPseudoType simple_selector)
             compound_pseudo_element)"

definition IsPseudoClassValidWithinHasArgument :: "CSSSelector \<Rightarrow> bool" where
  "IsPseudoClassValidWithinHasArgument selector =
     (case GetPseudoType selector of kPseudoHas \<Rightarrow> False | _ \<Rightarrow> True)"

section \<open>The pseudo type of a name\<close>

text \<open>
  \<open>ParsePseudoType\<close>, the static function that \<open>CSSSelector::UpdatePseudoType\<close>
  calls with the lower-cased name. The name table \<open>CSSSelector::NameToPseudoType\<close> and
  the runtime feature are parameters. A scrollbar pseudo-element is unknown when
  scrollbar styling is off; a name the table does not know is a custom pseudo-element
  when it starts with \<open>-webkit-\<close>, an internal one when it starts with
  \<open>-internal-\<close>, and a custom state when it starts with \<open>--\<close>.
\<close>

definition StartsWith :: "string \<Rightarrow> string \<Rightarrow> bool" where
  "StartsWith name prefix = (take (length prefix) name = prefix)"

definition ParsePseudoType ::
  "(string \<Rightarrow> bool \<Rightarrow> PseudoType) \<Rightarrow> bool \<Rightarrow> string \<Rightarrow> bool \<Rightarrow> PseudoType" where
  "ParsePseudoType name_to_pseudo_type webkit_scrollbar_styling_enabled name has_arguments =
     (let pseudo_type = name_to_pseudo_type name has_arguments in
      if \<not> webkit_scrollbar_styling_enabled
         \<and> (pseudo_type = kPseudoResizer \<or> pseudo_type = kPseudoScrollbar
            \<or> pseudo_type = kPseudoScrollbarCorner \<or> pseudo_type = kPseudoScrollbarButton
            \<or> pseudo_type = kPseudoScrollbarThumb \<or> pseudo_type = kPseudoScrollbarTrack
            \<or> pseudo_type = kPseudoScrollbarTrackPiece)
      then kPseudoUnknown
      else if pseudo_type \<noteq> kPseudoUnknown then pseudo_type
      else if StartsWith name ''-webkit-'' then kPseudoWebKitCustomElement
      else if StartsWith name ''-internal-'' then kPseudoBlinkInternalElement
      else if StartsWith name ''--'' then kPseudoState
      else kPseudoUnknown)"

section \<open>Pseudo-classes and pseudo-elements\<close>

text \<open>
  The parser is recursive through the arguments of the functional pseudo-classes: the
  block of a functional pseudo is parsed by one of five functions of the parser
  itself. The functions below take these as the parameter \<open>nested\<close>, which is given
  the function to call, the parser's flags and the block, and returns the selector
  list, the flags and what is left of the block; \<open>ConsumeNested\<close> further down closes
  the recursion. Every block handed to \<open>nested\<close> is shorter than the range it was cut
  from. For \<open>ConsumeCompoundSelector\<close> (the argument of \<open>::slotted()\<close>) the list
  returned is the selector vector the source adopts: the one selector, or nothing for
  the null pointer.
\<close>

datatype NestedCall =
    CallConsumeForgivingNestedSelectorList
  | CallConsumeCompoundSelectorList
  | CallConsumeForgivingRelativeSelectorList
  | CallConsumeNestedSelectorList
  | CallConsumeCompoundSelector

type_synonym NestedParser =
  "NestedCall \<Rightarrow> CSSSelectorParser \<Rightarrow> CSSParserTokenRange
     \<Rightarrow> CSSSelectorList \<times> CSSSelectorParser \<times> CSSParserTokenRange"

text \<open>The identifier loop of \<open>::part()\<close>: one or more identifiers up to the end of the block.\<close>

function ConsumePartNames :: "CSSParserTokenRange \<Rightarrow> AtomicString list option" where
  "ConsumePartNames block =
     (let (ident, block1) = ConsumeIncludingWhitespace block in
      if GetType ident \<noteq> kIdentToken then None
      else if AtEnd block1 then Some [Some (Value ident)]
      else map_option (\<lambda>parts. Some (Value ident) # parts) (ConsumePartNames block1))"
  by pat_completeness auto
termination
proof (relation "measure length", goal_cases)
  case 1
  show ?case by simp
next
  case (2 block x ident block1)
  then have "block \<noteq> []"
    by (auto simp: ConsumeIncludingWhitespace_def Consume_def)
  with 2 show ?case
    using ConsumeWhitespace_length [of "tl block"]
    by (cases block) (auto simp: ConsumeIncludingWhitespace_def Consume_def)
qed

declare ConsumePartNames.simps [simp del]

text \<open>
  The argument switch of \<open>ConsumePseudo\<close>, after the block has been taken from the
  range and its leading whitespace consumed. Each case sets the scoped flags, parses
  and restores them on every way out.
\<close>

definition ConsumePseudoArguments ::
  "NestedParser \<Rightarrow> ParserEnv \<Rightarrow> CSSSelectorParser \<Rightarrow> CSSSelector \<Rightarrow> CSSParserTokenRange
     \<Rightarrow> CSSSelector option \<times> CSSSelectorParser" where
  "ConsumePseudoArguments nested env st selector block =
     (let ty = GetPseudoType selector in
      if ty = kPseudoIs \<or> ty = kPseudoWhere then
        (let st1 = st\<lparr>disallow_pseudo_elements := True, resist_default_namespace := True,
                       is_inside_logical_combination_in_has_argument :=
                         is_inside_has_argument st\<rparr>;
             (selector_list, st2, block1) = nested CallConsumeForgivingNestedSelectorList st1 block;
             st3 = st2\<lparr>disallow_pseudo_elements := disallow_pseudo_elements st,
                        resist_default_namespace := resist_default_namespace st,
                        is_inside_logical_combination_in_has_argument :=
                          is_inside_logical_combination_in_has_argument st\<rparr>
         in if \<not> AtEnd block1 then (None, st3)
            else (Some (SetSelectorList selector_list selector), st3))
      else if ty = kPseudoHost \<or> ty = kPseudoHostContext \<or> ty = kPseudoAny \<or> ty = kPseudoCue then
        (let st1 = st\<lparr>disallow_pseudo_elements := True, inside_compound_pseudo := True,
                       ignore_default_namespace :=
                         (ignore_default_namespace st \<or> ty = kPseudoCue)\<rparr>;
             (selector_list, st2, block1) = nested CallConsumeCompoundSelectorList st1 block;
             st3 = st2\<lparr>disallow_pseudo_elements := disallow_pseudo_elements st,
                        inside_compound_pseudo := inside_compound_pseudo st,
                        ignore_default_namespace := ignore_default_namespace st\<rparr>
         in if \<not> IsValid selector_list \<or> \<not> AtEnd block1 then (None, st3)
            else if \<not> HasOneSelector selector_list \<and> (ty = kPseudoHost \<or> ty = kPseudoHostContext)
            then (None, st3)
            else (Some (SetSelectorList selector_list selector), st3))
      else if ty = kPseudoHas then
        (if \<not> CSSPseudoHasEnabled (externals env) then (None, st)
         else
          (let st1 = st\<lparr>disallow_pseudo_elements := True, resist_default_namespace := True,
                         is_inside_has_argument := True,
                         found_pseudo_in_has_argument := False,
                         found_complex_logical_combinations_in_has_argument := False\<rparr>;
               (selector_list, st2, block1) =
                  nested CallConsumeForgivingRelativeSelectorList st1 block;
               st3 = st2\<lparr>disallow_pseudo_elements := disallow_pseudo_elements st,
                          resist_default_namespace := resist_default_namespace st,
                          is_inside_has_argument := is_inside_has_argument st,
                          found_pseudo_in_has_argument := found_pseudo_in_has_argument st,
                          found_complex_logical_combinations_in_has_argument :=
                            found_complex_logical_combinations_in_has_argument st\<rparr>
           in if \<not> IsValid selector_list then (None, st3)
              else if \<not> AtEnd block1 then (None, st3)
              else
               (let selector1 = SetSelectorList selector_list selector;
                    selector2 = (if found_pseudo_in_has_argument st2
                                 then SetContainsPseudoInsideHasPseudoClass selector1
                                 else selector1);
                    selector3 = (if found_complex_logical_combinations_in_has_argument st2
                                 then SetContainsComplexLogicalCombinationsInsideHasPseudoClass
                                        selector2
                                 else selector2)
                in (Some selector3, st3))))
      else if ty = kPseudoNot then
        (let st1 = st\<lparr>disallow_pseudo_elements := True, resist_default_namespace := True,
                       is_inside_logical_combination_in_has_argument :=
                         is_inside_has_argument st\<rparr>;
             (selector_list, st2, block1) = nested CallConsumeNestedSelectorList st1 block;
             st3 = st2\<lparr>disallow_pseudo_elements := disallow_pseudo_elements st,
                        resist_default_namespace := resist_default_namespace st,
                        is_inside_logical_combination_in_has_argument :=
                          is_inside_logical_combination_in_has_argument st\<rparr>
         in if \<not> IsValid selector_list \<or> \<not> AtEnd block1 then (None, st3)
            else (Some (SetSelectorList selector_list selector), st3))
      else if ty = kPseudoDir \<or> ty = kPseudoLang \<or> ty = kPseudoHighlight then
        (let (ident, block1) = ConsumeIncludingWhitespace block in
         if GetType ident \<noteq> kIdentToken \<or> \<not> AtEnd block1 then (None, st)
         else (Some (SetArgument (Some (Value ident)) selector), st))
      else if ty = kPseudoPart then
        (case ConsumePartNames block of
           None \<Rightarrow> (None, st)
         | Some parts \<Rightarrow> (Some (SetPartNames parts selector), st))
      else if ty = kPseudoPageTransitionContainer \<or> ty = kPseudoPageTransitionImageWrapper
              \<or> ty = kPseudoPageTransitionOutgoingImage
              \<or> ty = kPseudoPageTransitionIncomingImage then
        (let (ident, block1) = ConsumeIncludingWhitespace block in
         if \<not> AtEnd block1 then (None, st)
         else if GetType ident = kIdentToken
         then (Some (SetArgument (Some (Value ident)) selector), st)
         else if GetType ident = kDelimiterToken \<and> Delimiter ident = CHR ''*''
         then (Some (SetArgument (UniversalSelectorAtom (externals env)) selector), st)
         else (None, st))
      else if ty = kPseudoSlotted then
        (let st1 = st\<lparr>disallow_pseudo_elements := True, inside_compound_pseudo := True\<rparr>;
             (selector_vector, st2, block1) = nested CallConsumeCompoundSelector st1 block;
             block2 = ConsumeWhitespace block1;
             st3 = st2\<lparr>disallow_pseudo_elements := disallow_pseudo_elements st,
                        inside_compound_pseudo := inside_compound_pseudo st\<rparr>
         in if selector_vector = [] \<or> \<not> AtEnd block2 then (None, st3)
            else (Some (SetSelectorList selector_vector selector), st3))
      else if ty = kPseudoNthChild \<or> ty = kPseudoNthLastChild \<or> ty = kPseudoNthOfType
              \<or> ty = kPseudoNthLastOfType then
        (case ConsumeANPlusB (externals env) block of
           (None, block1) \<Rightarrow> (None, st)
         | (Some ab, block1) \<Rightarrow>
             if \<not> AtEnd (ConsumeWhitespace block1) then (None, st)
             else (Some (SetNth (fst ab) (snd ab) selector), st))
      else if ty = kPseudoToggle then
        (let (name, block1) = ConsumeIncludingWhitespace block in
         if GetType name \<noteq> kIdentToken \<or> \<not> IsCustomIdent (externals env) (Value name)
         then (None, st)
         else if AtEnd block1
         then (Some (SetToggle (Some (Value name)) None selector), st)
         else
          (let (value_token, block2) = ConsumeIncludingWhitespace block1 in
           if GetType value_token = kIdentToken then
             (if \<not> IsCustomIdent (externals env) (Value value_token) then (None, st)
              else if \<not> AtEnd block2 then (None, st)
              else (Some (SetToggle (Some (Value name))
                            (Some (ToggleStateName (Some (Value value_token)))) selector), st))
           else if GetType value_token = kNumberToken then
             (if GetNumericValueType value_token \<noteq> kIntegerValueType
                 \<or> NumericValue value_token < 0 then (None, st)
              else if \<not> AtEnd block2 then (None, st)
              else (Some (SetToggle (Some (Value name))
                            (Some (ToggleStateInteger (NumericValue value_token))) selector), st))
           else (None, st)))
      else (None, st))"

text \<open>
  \<open>ConsumePseudo\<close>: the colons, the name, the pseudo type from the name table, the
  checks that do not need the arguments, and then either the identifier or the block
  and its arguments.
\<close>

definition NewPseudoSelector :: "Externals \<Rightarrow> bool \<Rightarrow> CSSParserToken \<Rightarrow> CSSSelector" where
  "NewPseudoSelector ext two_colons token =
     (let (m, ty, v) = UpdatePseudoType ext
                         (if two_colons then kPseudoElement else kPseudoClass)
                         (Value token) (GetType token = kFunctionToken)
      in update_fields
           (\<lambda>f. f\<lparr>match := m, pseudo_type := ty, selector_value := v,
                   serializing_value := v\<rparr>) NewSelector)"

definition ConsumePseudo ::
  "NestedParser \<Rightarrow> ParserEnv \<Rightarrow> CSSSelectorParser \<Rightarrow> CSSParserTokenRange
     \<Rightarrow> CSSSelector option \<times> CSSSelectorParser \<times> CSSParserTokenRange" where
  "ConsumePseudo nested env st rng =
     (let rng1 = snd (Consume rng);
          two_colons = (GetType (Peek rng1) = kColonToken);
          rng2 = (if two_colons then snd (Consume rng1) else rng1);
          token = Peek rng2
      in
      if GetType token \<noteq> kIdentToken \<and> GetType token \<noteq> kFunctionToken then (None, st, rng2)
      else
       (let selector = NewPseudoSelector (externals env) two_colons token in
        if Match selector = kPseudoElement \<and> disallow_pseudo_elements st then (None, st, rng2)
        else if is_inside_has_argument st \<and> \<not> IsPseudoClassValidWithinHasArgument selector
        then (None, st, rng2)
        else
         (let st1 = (if is_inside_has_argument st
                     then st\<lparr>found_pseudo_in_has_argument := True\<rparr> else st)
          in
          if GetType token = kIdentToken then
            (let rng3 = snd (Consume rng2) in
             if GetPseudoType selector = kPseudoUnknown then (None, st1, rng3)
             else (Some selector, st1, rng3))
          else
            (let block = ConsumeWhitespace (fst (ConsumeBlock rng2));
                 rng3 = snd (ConsumeBlock rng2)
             in
             if GetPseudoType selector = kPseudoUnknown then (None, st1, rng3)
             else
              (let (result, st2) = ConsumePseudoArguments nested env st1 selector block
               in (result, st2, rng3))))))"

section \<open>Simple and compound selectors\<close>

text \<open>
  \<open>ConsumeSimpleSelector\<close>. The failure flag is set when the selector is null, and
  outside user-agent sheets when the selector is not legal after the restricting
  pseudo-element of the compound.
\<close>

definition ConsumeSimpleSelector ::
  "NestedParser \<Rightarrow> ParserEnv \<Rightarrow> CSSSelectorParser \<Rightarrow> CSSParserTokenRange
     \<Rightarrow> CSSSelector option \<times> CSSSelectorParser \<times> CSSParserTokenRange" where
  "ConsumeSimpleSelector nested env st rng =
     (let token = Peek rng in
      if \<not> (GetType token = kHashToken
             \<or> (GetType token = kDelimiterToken \<and> Delimiter token = CHR ''.'')
             \<or> GetType token = kLeftBracketToken
             \<or> GetType token = kColonToken)
      then (None, st, rng)
      else
       (let (selector, st1, rng1) =
              (if GetType token = kHashToken
               then (fst (ConsumeId env rng), st, snd (ConsumeId env rng))
               else if GetType token = kDelimiterToken
               then (fst (ConsumeClass env rng), st, snd (ConsumeClass env rng))
               else if GetType token = kLeftBracketToken then ConsumeAttribute env st rng
               else ConsumePseudo nested env st rng)
        in
        case selector of
          None \<Rightarrow> (None, st1\<lparr>failed_parsing := True\<rparr>, rng1)
        | Some s \<Rightarrow>
            if Mode (parser_context env) \<noteq> kUASheetMode
               \<and> \<not> IsSimpleSelectorValidAfterPseudoElement (externals env) s
                     (restricting_pseudo_element st1)
            then (Some s, st1\<lparr>failed_parsing := True\<rparr>, rng1)
            else (Some s, st1, rng1)))"

definition AddSimpleSelectorToCompound ::
  "CSSParserSelector \<Rightarrow> CSSSelector \<Rightarrow> CSSParserSelector" where
  "AddSimpleSelectorToCompound compound_selector simple_selector =
     AppendTagHistory kSubSelector [simple_selector] compound_selector"
text \<open>How the basic consumers move the range: never backwards.\<close>

lemma Consume_length: "length (snd (Consume rng)) \<le> length rng"
  by (cases rng) (auto simp: Consume_def)

lemma Consume_length_less: "rng \<noteq> [] \<Longrightarrow> length (snd (Consume rng)) < length rng"
  by (cases rng) (auto simp: Consume_def)

lemma ConsumeIncludingWhitespace_length:
  "length (snd (ConsumeIncludingWhitespace rng)) \<le> length rng"
  using ConsumeWhitespace_length [of "snd (Consume rng)"] Consume_length [of rng]
  by (auto simp: ConsumeIncludingWhitespace_def split: prod.splits)

lemma ConsumeIncludingWhitespace_length_less:
  "rng \<noteq> [] \<Longrightarrow> length (snd (ConsumeIncludingWhitespace rng)) < length rng"
  using ConsumeWhitespace_length [of "snd (Consume rng)"] Consume_length_less [of rng]
  by (auto simp: ConsumeIncludingWhitespace_def split: prod.splits)

lemma ConsumeBlock_rest_length: "length (snd (ConsumeBlock rng)) \<le> length rng"
  using ConsumeBlock_length [of rng] by (cases "rng = []") (auto simp: ConsumeBlock_def)

lemma ConsumeBlock_rest_length_less:
  "rng \<noteq> [] \<Longrightarrow> length (snd (ConsumeBlock rng)) < length rng"
  using ConsumeBlock_length [of rng] by simp

lemma ConsumeBlock_block_length_less:
  "rng \<noteq> [] \<Longrightarrow> length (fst (ConsumeBlock rng)) < length rng"
  using ConsumeBlock_length [of rng] by simp

lemma Peek_not_EOF_nonempty: "GetType (Peek rng) \<noteq> kEOFToken \<Longrightarrow> rng \<noteq> []"
  by (auto simp: Peek_def)

lemma ConsumeCombinator_length: "length (snd (ConsumeCombinator rng)) \<le> length rng"
  using ConsumeWhitespace_length [of rng]
        ConsumeIncludingWhitespace_length [of "ConsumeWhitespace rng"]
  by (auto simp: ConsumeCombinator_def Let_def)

lemma ConsumeName_length:
  "length (snd (snd (snd (ConsumeName ext rng)))) \<le> length rng"
proof -
  have a: "length (snd (Consume (snd (Consume (snd (Consume rng)))))) \<le> length rng"
    using Consume_length [of rng] Consume_length [of "snd (Consume rng)"]
          Consume_length [of "snd (Consume (snd (Consume rng)))"] by linarith
  have b: "length (snd (Consume (snd (Consume rng)))) \<le> length rng"
    using Consume_length [of rng] Consume_length [of "snd (Consume rng)"] by linarith
  show ?thesis
    using a b Consume_length [of rng]
    by (auto simp: ConsumeName_def Let_def split: prod.splits)
qed

text \<open>Where \<open>ConsumePseudo\<close> leaves the range.\<close>

definition after_colons :: "CSSParserTokenRange \<Rightarrow> CSSParserTokenRange" where
  "after_colons rng =
     (if GetType (Peek (snd (Consume rng))) = kColonToken then snd (Consume (snd (Consume rng)))
      else snd (Consume rng))"

lemma ConsumePseudo_range:
  "(snd (snd (ConsumePseudo nested env st rng)) = after_colons rng
      \<and> fst (ConsumePseudo nested env st rng) = None)
   \<or> (GetType (Peek (after_colons rng)) = kIdentToken
      \<and> snd (snd (ConsumePseudo nested env st rng)) = snd (Consume (after_colons rng)))
   \<or> (GetType (Peek (after_colons rng)) = kFunctionToken
      \<and> snd (snd (ConsumePseudo nested env st rng)) = snd (ConsumeBlock (after_colons rng)))"
  by (simp add: ConsumePseudo_def after_colons_def Let_def case_prod_beta)

lemma after_colons_length: "length (after_colons rng) \<le> length rng"
  using Consume_length [of rng] Consume_length [of "snd (Consume rng)"]
  by (auto simp: after_colons_def)

lemma ConsumePseudo_length:
  "length (snd (snd (ConsumePseudo nested env st rng))) \<le> length rng"
  using ConsumePseudo_range [of nested env st rng] after_colons_length [of rng]
    Consume_length [of "after_colons rng"] ConsumeBlock_rest_length [of "after_colons rng"]
  by auto

lemma ConsumePseudo_length_less:
  "fst (ConsumePseudo nested env st rng) \<noteq> None \<Longrightarrow>
   length (snd (snd (ConsumePseudo nested env st rng))) < length rng"
  using ConsumePseudo_range [of nested env st rng] after_colons_length [of rng]
    Consume_length_less [of "after_colons rng"]
    ConsumeBlock_rest_length_less [of "after_colons rng"]
    Peek_not_EOF_nonempty [of "after_colons rng"]
  by auto

lemma ConsumeId_length: "length (snd (ConsumeId env rng)) \<le> length rng"
  using Consume_length [of rng] by (simp add: ConsumeId_def case_prod_beta)

lemma ConsumeId_length_less:
  "GetType (Peek rng) = kHashToken \<Longrightarrow> fst (ConsumeId env rng) \<noteq> None \<Longrightarrow>
   length (snd (ConsumeId env rng)) < length rng"
  using Consume_length_less [of rng] Peek_not_EOF_nonempty [of rng]
  by (auto simp: ConsumeId_def case_prod_beta split: if_splits)

lemma ConsumeClass_length: "length (snd (ConsumeClass env rng)) \<le> length rng"
  using Consume_length [of rng] Consume_length [of "snd (Consume rng)"]
  by (auto simp: ConsumeClass_def case_prod_beta Let_def)

lemma ConsumeClass_length_less:
  "GetType (Peek rng) = kDelimiterToken \<Longrightarrow>
   length (snd (ConsumeClass env rng)) < length rng"
  using Consume_length_less [of rng] Consume_length [of "snd (Consume rng)"]
    Peek_not_EOF_nonempty [of rng]
  by (auto simp: ConsumeClass_def case_prod_beta Let_def)

lemma ConsumeAttribute_range:
  "snd (snd (ConsumeAttribute env st rng)) = snd (ConsumeBlock rng)"
  by (simp add: ConsumeAttribute_def Let_def case_prod_beta)

lemma ConsumeSimpleSelector_length:
  "length (snd (snd (ConsumeSimpleSelector nested env st rng))) \<le> length rng"
  using ConsumeId_length [of env rng] ConsumeClass_length [of env rng]
    ConsumeBlock_rest_length [of rng] ConsumePseudo_length [of nested env st rng]
  by (simp add: ConsumeSimpleSelector_def Let_def case_prod_beta ConsumeAttribute_range
      split: option.splits)

lemma ConsumeSimpleSelector_length_less:
  "fst (ConsumeSimpleSelector nested env st rng) \<noteq> None \<Longrightarrow>
   length (snd (snd (ConsumeSimpleSelector nested env st rng))) < length rng"
  using ConsumeId_length_less [of rng env] ConsumeClass_length_less [of rng env]
    ConsumeBlock_rest_length_less [of rng] ConsumePseudo_length_less [of nested env st rng]
    Peek_not_EOF_nonempty [of rng]
  by (auto simp: ConsumeSimpleSelector_def Let_def case_prod_beta ConsumeAttribute_range
      split: option.splits if_splits)

text \<open>
  The loop of \<open>ConsumeCompoundSelector\<close> that consumes simple selectors until one is
  null: a pseudo-element becomes the restricting pseudo-element, and each selector is
  added to the compound.
\<close>

function ConsumeSimpleSelectors ::
  "NestedParser \<Rightarrow> ParserEnv \<Rightarrow> CSSSelectorParser \<Rightarrow> CSSParserTokenRange
     \<Rightarrow> CSSParserSelector option
     \<Rightarrow> CSSParserSelector option \<times> CSSSelectorParser \<times> CSSParserTokenRange" where
  "ConsumeSimpleSelectors nested env st rng compound_selector =
     (case ConsumeSimpleSelector nested env st rng of
        (None, st1, rng1) \<Rightarrow> (compound_selector, st1, rng1)
      | (Some simple_selector, st1, rng1) \<Rightarrow>
          (let st2 = (if Match simple_selector = kPseudoElement
                      then st1\<lparr>restricting_pseudo_element := GetPseudoType simple_selector\<rparr>
                      else st1);
               compound_selector1 =
                 (case compound_selector of
                    Some c \<Rightarrow> AddSimpleSelectorToCompound c simple_selector
                  | None \<Rightarrow> [simple_selector])
           in ConsumeSimpleSelectors nested env st2 rng1 (Some compound_selector1)))"
  by pat_completeness auto
termination
proof (relation "measure (\<lambda>(nested, env, st, rng, c). length rng)", goal_cases)
  case 1
  show ?case by simp
next
  case (2 nested env st rng compound_selector x1 x2 x3 x4 x5 x6 x7)
  then have "ConsumeSimpleSelector nested env st rng = (Some x3, x4, x5)"
    by (metis prod.collapse prod.inject)
  then show ?case
    using ConsumeSimpleSelector_length_less [of nested env st rng] by simp
qed

declare ConsumeSimpleSelectors.simps [simp del]

text \<open>
  \<open>ExtractCompoundFlags\<close>: a pseudo-element must be in the rightmost compound, but
  for a \<open>::-webkit-\<close> custom pseudo-element in a user-agent sheet.
\<close>

definition kHasPseudoElementForRightmostCompound :: "32 word" where
  "kHasPseudoElementForRightmostCompound = push_bit 0 1"

definition ExtractCompoundFlags :: "CSSSelector \<Rightarrow> CSSParserMode \<Rightarrow> 32 word" where
  "ExtractCompoundFlags simple_selector parser_mode =
     (if Match simple_selector \<noteq> kPseudoElement then 0
      else if parser_mode = kUASheetMode
              \<and> GetPseudoType simple_selector = kPseudoWebKitCustomElement then 0
      else kHasPseudoElementForRightmostCompound)"

text \<open>
  \<open>PrependTypeSelectorIfNeeded\<close>. The predicates on the compound read its first
  simple selector.
\<close>

definition PrependTypeSelectorIfNeeded ::
  "ParserEnv \<Rightarrow> CSSSelectorParser \<Rightarrow> AtomicString \<Rightarrow> bool \<Rightarrow> AtomicString
     \<Rightarrow> CSSSelector \<Rightarrow> CSSParserSelector \<Rightarrow> CSSParserSelector \<times> CSSSelectorParser" where
  "PrependTypeSelectorIfNeeded env st namespace_prefix has_q_name element_name head tag_history =
     (let compound_selector = head # tag_history;
          needs_implicit = NeedsImplicitShadowCombinatorForMatching (externals env) head
      in
      if \<not> has_q_name \<and> DefaultNamespace env st = g_star_atom \<and> \<not> needs_implicit
      then (compound_selector, st)
      else
       (let determined_element_name =
              (if \<not> has_q_name then UniversalSelectorAtom (externals env) else element_name);
            namespace_uri = DetermineNamespace env st namespace_prefix
        in
        if IsNull namespace_uri then (compound_selector, st\<lparr>failed_parsing := True\<rparr>)
        else
         (let determined_prefix =
                (if namespace_uri = DefaultNamespace env st then g_null_atom
                 else namespace_prefix);
              tag = QName determined_prefix determined_element_name namespace_uri;
              is_host_pseudo = IsHostPseudoSelector head
          in
          if is_host_pseudo \<and> \<not> has_q_name \<and> IsNull namespace_prefix
          then (compound_selector, st)
          else if tag \<noteq> AnyQName (externals env) \<or> is_host_pseudo \<or> needs_implicit
          then (PrependTagSelector tag
                  (determined_prefix = g_null_atom
                   \<and> determined_element_name = UniversalSelectorAtom (externals env)
                   \<and> \<not> is_host_pseudo) compound_selector, st)
          else (compound_selector, st))))"

text \<open>
  \<open>SplitCompoundAtImplicitShadowCrossingCombinator\<close>: the compound is cut before the
  first simple selector, after the head, that needs an implicit shadow combinator; what
  comes after the cut is split again and the front is linked behind it with the
  implicit combinator.
\<close>

function SplitCompoundAtImplicitShadowCrossingCombinator ::
  "Externals \<Rightarrow> CSSParserSelector \<Rightarrow> CSSParserSelector" where
  "SplitCompoundAtImplicitShadowCrossingCombinator ext [] = []"
| "SplitCompoundAtImplicitShadowCrossingCombinator ext (head # tag_history) =
     (let front = head # takeWhile (\<lambda>s. \<not> NeedsImplicitShadowCombinatorForMatching ext s)
                           tag_history;
          remaining = dropWhile (\<lambda>s. \<not> NeedsImplicitShadowCombinatorForMatching ext s)
                        tag_history
      in
      case remaining of
        [] \<Rightarrow> head # tag_history
      | r # rs \<Rightarrow>
          AppendTagHistory (GetImplicitShadowCombinatorForMatching ext r) front
            (SplitCompoundAtImplicitShadowCrossingCombinator ext (r # rs)))"
  by pat_completeness auto
termination
proof (relation "measure (\<lambda>(ext, c). length c)", goal_cases)
  case 1
  show ?case by simp
next
  case (2 ext head tag_history x xa r rs)
  have "length (dropWhile (\<lambda>s. \<not> NeedsImplicitShadowCombinatorForMatching ext s) tag_history)
          \<le> length tag_history"
    by (rule length_dropWhile_le)
  with 2 show ?case by simp
qed

declare SplitCompoundAtImplicitShadowCrossingCombinator.simps [simp del]

text \<open>
  \<open>ConsumeCompoundSelector\<close>, in two steps. The second step is what the source
  does after the loop over the simple selectors: the subject test for ignoring the
  default namespace, the type selector of a compound that is only a name, or the
  prepended type selector and the split. The restricting pseudo-element is restored to
  its value on entry (\<open>st0\<close>) and the namespace-ignoring flag to its value before the
  subject test, on every way out.
\<close>

definition ConsumeCompoundSelector_finish ::
  "ParserEnv \<Rightarrow> CSSSelectorParser \<Rightarrow> bool \<Rightarrow> AtomicString \<Rightarrow> AtomicString
     \<Rightarrow> CSSParserSelector option \<times> CSSSelectorParser \<times> CSSParserTokenRange
     \<Rightarrow> CSSParserSelector option \<times> CSSSelectorParser \<times> CSSParserTokenRange" where
  "ConsumeCompoundSelector_finish env st0 has_q_name element_name namespace_prefix loop_result =
     (let compound_selector = fst loop_result;
          st3 = fst (snd loop_result);
          rng3 = snd (snd loop_result);
          at_end = (\<lambda>(r, s). (r, s, rng3));
          st4 = st3\<lparr>ignore_default_namespace :=
                      (ignore_default_namespace st3
                       \<or> (resist_default_namespace st3 \<and> \<not> has_q_name
                           \<and> AtEndIgnoringWhitespace rng3))\<rparr>;
          restore = (\<lambda>s. s\<lparr>ignore_default_namespace := ignore_default_namespace st3,
                             restricting_pseudo_element := restricting_pseudo_element st0\<rparr>)
      in
      at_end
      (case compound_selector of
         None \<Rightarrow>
           (let namespace_uri = DetermineNamespace env st4 namespace_prefix in
            if IsNull namespace_uri
            then (None, restore (st4\<lparr>failed_parsing := True\<rparr>))
            else
             (let namespace_prefix1 =
                    (if namespace_uri = DefaultNamespace env st4 then g_null_atom
                     else namespace_prefix)
              in (Some [TagSelector (QName namespace_prefix1 element_name namespace_uri) False],
                  restore st4)))
       | Some [] \<Rightarrow> (None, restore st4)
       | Some (head # tag_history) \<Rightarrow>
           (let (compound_selector1, st5) =
                  PrependTypeSelectorIfNeeded env st4 namespace_prefix has_q_name element_name
                    head tag_history
            in (Some (SplitCompoundAtImplicitShadowCrossingCombinator (externals env)
                        compound_selector1),
                restore st5))))"

definition ConsumeCompoundSelector ::
  "NestedParser \<Rightarrow> ParserEnv \<Rightarrow> CSSSelectorParser \<Rightarrow> CSSParserTokenRange
     \<Rightarrow> CSSParserSelector option \<times> CSSSelectorParser \<times> CSSParserTokenRange" where
  "ConsumeCompoundSelector nested env st rng =
     (let (has_q_name, element_name0, namespace_prefix, rng1) = ConsumeName (externals env) rng;
          element_name = (if IsHTMLDocument (parser_context env) then LowerASCII element_name0
                          else element_name0)
      in
      if has_q_name
      then ConsumeCompoundSelector_finish env st has_q_name element_name namespace_prefix
             (ConsumeSimpleSelectors nested env st rng1 None)
      else
       (case ConsumeSimpleSelector nested env st rng1 of
          (None, st1, rng2) \<Rightarrow>
            (None, st1\<lparr>restricting_pseudo_element := restricting_pseudo_element st\<rparr>, rng2)
        | (Some s, st1, rng2) \<Rightarrow>
            (let st2 = (if Match s = kPseudoElement
                        then st1\<lparr>restricting_pseudo_element := GetPseudoType s\<rparr>
                        else st1)
             in ConsumeCompoundSelector_finish env st has_q_name element_name namespace_prefix
                  (ConsumeSimpleSelectors nested env st2 rng2 (Some [s])))))"

lemma ConsumeCompoundSelector_finish_range [simp]:
  "snd (snd (ConsumeCompoundSelector_finish env st0 q e p r)) = snd (snd r)"
  by (simp add: ConsumeCompoundSelector_finish_def Let_def case_prod_beta
      split: option.splits list.splits)

lemma ConsumeName_length_less:
  "fst (ConsumeName ext rng) \<Longrightarrow> length (snd (snd (snd (ConsumeName ext rng)))) < length rng"
proof -
  assume a: "fst (ConsumeName ext rng)"
  then have ne: "rng \<noteq> []"
    by (auto simp: ConsumeName_def Let_def Peek_def split: if_splits)
  have b: "length (snd (Consume (snd (Consume rng)))) < length rng"
    using Consume_length_less [OF ne] Consume_length [of "snd (Consume rng)"] by linarith
  have c: "length (snd (Consume (snd (Consume (snd (Consume rng)))))) < length rng"
    using b Consume_length [of "snd (Consume (snd (Consume rng)))"] by linarith
  show ?thesis
    using a b c Consume_length_less [OF ne]
    by (auto simp: ConsumeName_def Let_def case_prod_beta split: if_splits)
qed

lemma ConsumeSimpleSelectors_length:
  "length (snd (snd (ConsumeSimpleSelectors nested env st rng c))) \<le> length rng"
proof (induction nested env st rng c rule: ConsumeSimpleSelectors.induct)
  case (1 nested env st rng c)
  show ?case
  proof (cases "ConsumeSimpleSelector nested env st rng")
    case (fields r st1 rng1)
    have le: "length rng1 \<le> length rng"
      using ConsumeSimpleSelector_length [of nested env st rng] fields by simp
    show ?thesis
    proof (cases r)
      case None
      with fields le show ?thesis by (simp add: ConsumeSimpleSelectors.simps [of nested env st rng])
    next
      case (Some s)
      from 1 [OF fields [symmetric, unfolded Some] refl refl refl refl] le fields Some
      show ?thesis by (simp add: Let_def ConsumeSimpleSelectors.simps [of nested env st rng])
    qed
  qed
qed

lemma ConsumeCompoundSelector_length:
  "length (snd (snd (ConsumeCompoundSelector nested env st rng))) \<le> length rng"
proof -
  let ?n = "ConsumeName (externals env) rng"
  let ?rng1 = "snd (snd (snd ?n))"
  have n: "length ?rng1 \<le> length rng" by (rule ConsumeName_length)
  show ?thesis
  proof (cases "fst ?n")
    case True
    then show ?thesis
      using n ConsumeSimpleSelectors_length [of nested env st ?rng1 None]
      by (simp add: ConsumeCompoundSelector_def Let_def case_prod_beta)
  next
    case False
    obtain r st1 rng2 where s: "ConsumeSimpleSelector nested env st ?rng1 = (r, st1, rng2)"
      by (cases "ConsumeSimpleSelector nested env st ?rng1") auto
    have le: "length rng2 \<le> length ?rng1"
      using ConsumeSimpleSelector_length [of nested env st ?rng1] s by simp
    show ?thesis
    proof (cases r)
      case None
      with False s le n show ?thesis
        by (simp add: ConsumeCompoundSelector_def Let_def case_prod_beta)
    next
      case (Some x)
      have "\<And>s. length (snd (snd (ConsumeSimpleSelectors nested env s rng2 (Some [x]))))
               \<le> length rng2"
        by (rule ConsumeSimpleSelectors_length)
      from this [of st1]
        this [of "st1\<lparr>restricting_pseudo_element := GetPseudoType x\<rparr>"] False s le n Some
      show ?thesis
        by (simp add: ConsumeCompoundSelector_def Let_def case_prod_beta)
    qed
  qed
qed

lemma ConsumeCompoundSelector_length_less:
  assumes "fst (ConsumeCompoundSelector nested env st rng) \<noteq> None"
  shows "length (snd (snd (ConsumeCompoundSelector nested env st rng))) < length rng"
proof -
  let ?n = "ConsumeName (externals env) rng"
  let ?rng1 = "snd (snd (snd ?n))"
  have n: "length ?rng1 \<le> length rng" by (rule ConsumeName_length)
  show ?thesis
  proof (cases "fst ?n")
    case True
    then show ?thesis
      using ConsumeName_length_less [of "externals env" rng]
        ConsumeSimpleSelectors_length [of nested env st ?rng1 None]
      by (simp add: ConsumeCompoundSelector_def Let_def case_prod_beta)
  next
    case False
    obtain r st1 rng2 where s: "ConsumeSimpleSelector nested env st ?rng1 = (r, st1, rng2)"
      by (cases "ConsumeSimpleSelector nested env st ?rng1") auto
    show ?thesis
    proof (cases r)
      case None
      with False s assms show ?thesis
        by (simp add: ConsumeCompoundSelector_def Let_def case_prod_beta)
    next
      case (Some x)
      have lt: "length rng2 < length ?rng1"
        using ConsumeSimpleSelector_length_less [of nested env st ?rng1] s Some by simp
      have "\<And>s. length (snd (snd (ConsumeSimpleSelectors nested env s rng2 (Some [x]))))
               \<le> length rng2"
        by (rule ConsumeSimpleSelectors_length)
      from this [of st1]
        this [of "st1\<lparr>restricting_pseudo_element := GetPseudoType x\<rparr>"] False s lt n Some
      show ?thesis
        by (simp add: ConsumeCompoundSelector_def Let_def case_prod_beta)
    qed
  qed
qed

section \<open>Complex selectors\<close>

text \<open>
  The compound flags of a whole compound, as \<open>ConsumePartialComplexSelector\<close>
  collects them along the tag history, and as \<open>ConsumeComplexSelector\<close> does for
  the first compound, stopping at the first flag set.
\<close>

fun CompoundFlags :: "CSSParserMode \<Rightarrow> CSSParserSelector \<Rightarrow> 32 word" where
  "CompoundFlags parser_mode [] = 0"
| "CompoundFlags parser_mode (s # tag_history) =
     ExtractCompoundFlags s parser_mode OR CompoundFlags parser_mode tag_history"

fun PreviousCompoundFlags :: "CSSParserMode \<Rightarrow> 32 word \<Rightarrow> CSSParserSelector \<Rightarrow> 32 word" where
  "PreviousCompoundFlags parser_mode previous_compound_flags [] = previous_compound_flags"
| "PreviousCompoundFlags parser_mode previous_compound_flags (simple # tag_history) =
     (if previous_compound_flags \<noteq> 0 then previous_compound_flags
      else PreviousCompoundFlags parser_mode
             (previous_compound_flags OR ExtractCompoundFlags simple parser_mode) tag_history)"

text \<open>
  \<open>ConsumePartialComplexSelector\<close>: the do-while loop over the compounds that follow
  a combinator. A null compound ends the parse: with the selector so far when the
  combinator was only whitespace, with failure otherwise. A compound after one whose
  flags ask for the rightmost position is a failure.
\<close>

function ConsumePartialComplexSelector ::
  "NestedParser \<Rightarrow> ParserEnv \<Rightarrow> CSSSelectorParser \<Rightarrow> CSSParserTokenRange \<Rightarrow> RelationType
     \<Rightarrow> CSSParserSelector \<Rightarrow> 32 word
     \<Rightarrow> CSSParserSelector option \<times> CSSSelectorParser \<times> CSSParserTokenRange" where
  "ConsumePartialComplexSelector nested env st rng combinator selector previous_compound_flags =
     (case ConsumeCompoundSelector nested env st rng of
        (None, st1, rng1) \<Rightarrow>
          (if combinator = kDescendant then Some selector else None, st1, rng1)
      | (Some next_selector, st1, rng1) \<Rightarrow>
          if previous_compound_flags AND kHasPseudoElementForRightmostCompound \<noteq> 0
          then (None, st1, rng1)
          else
           (let compound_flags = CompoundFlags (Mode (parser_context env)) next_selector;
                selector1 = AppendTagHistory combinator selector next_selector;
                combinator1 = fst (ConsumeCombinator rng1);
                rng2 = snd (ConsumeCombinator rng1)
            in
            if combinator1 \<noteq> kSubSelector
            then ConsumePartialComplexSelector nested env st1 rng2 combinator1 selector1
                   compound_flags
            else (Some selector1, st1, rng2)))"
  by pat_completeness auto
termination
proof (relation "measure (\<lambda>(nested, env, st, rng, c, s, f). length rng)", goal_cases)
  case 1
  show ?case by simp
next
  case (2 nested env st rng combinator selector previous_compound_flags x1 x2 x3 x4 x5)
  then have "ConsumeCompoundSelector nested env st rng = (Some x3, x4, x5)"
    by (metis prod.collapse prod.inject)
  then have "length x5 < length rng"
    using ConsumeCompoundSelector_length_less [of nested env st rng] by simp
  then show ?case
    using 2 ConsumeCombinator_length [of x5] by simp
qed

declare ConsumePartialComplexSelector.simps [simp del]

definition ConsumeComplexSelector ::
  "NestedParser \<Rightarrow> ParserEnv \<Rightarrow> CSSSelectorParser \<Rightarrow> CSSParserTokenRange
     \<Rightarrow> CSSParserSelector option \<times> CSSSelectorParser \<times> CSSParserTokenRange" where
  "ConsumeComplexSelector nested env st rng =
     (case ConsumeCompoundSelector nested env st rng of
        (None, st1, rng1) \<Rightarrow> (None, st1, rng1)
      | (Some selector, st1, rng1) \<Rightarrow>
          (let previous_compound_flags =
                 PreviousCompoundFlags (Mode (parser_context env)) 0 selector;
               combinator = fst (ConsumeCombinator rng1);
               rng2 = snd (ConsumeCombinator rng1)
           in
           if combinator \<noteq> kSubSelector
           then
            (let st2 = (if is_inside_has_argument st1
                           \<and> is_inside_logical_combination_in_has_argument st1
                        then st1\<lparr>found_complex_logical_combinations_in_has_argument := True\<rparr>
                        else st1)
             in ConsumePartialComplexSelector nested env st2 rng2 combinator selector
                  previous_compound_flags)
           else (Some selector, st1, rng2)))"

text \<open>
  \<open>ConsumeRelativeSelector\<close>: the relative anchor, the leading combinator made
  relative, and the rest of the complex selector.
\<close>

definition ConsumeRelativeSelector ::
  "NestedParser \<Rightarrow> ParserEnv \<Rightarrow> CSSSelectorParser \<Rightarrow> CSSParserTokenRange
     \<Rightarrow> CSSParserSelector option \<times> CSSSelectorParser \<times> CSSParserTokenRange" where
  "ConsumeRelativeSelector nested env st rng =
     (let selector =
            (let (m, ty, v) = UpdatePseudoType (externals env) kPseudoClass
                                ''-internal-relative-anchor'' False
             in update_fields
                  (\<lambda>f. f\<lparr>match := m, pseudo_type := ty, selector_value := v,
                          serializing_value := v\<rparr>) NewSelector);
          combinator0 = fst (ConsumeCombinator rng);
          rng1 = snd (ConsumeCombinator rng);
          combinator =
            (case combinator0 of
               kSubSelector \<Rightarrow> Some kRelativeDescendant
             | kDescendant \<Rightarrow> Some kRelativeDescendant
             | kChild \<Rightarrow> Some kRelativeChild
             | kDirectAdjacent \<Rightarrow> Some kRelativeDirectAdjacent
             | kIndirectAdjacent \<Rightarrow> Some kRelativeIndirectAdjacent
             | _ \<Rightarrow> None)
      in
      case combinator of
        None \<Rightarrow> (None, st, rng1)
      | Some c \<Rightarrow> ConsumePartialComplexSelector nested env st rng1 c [selector] 0)"

lemma ConsumePartialComplexSelector_length:
  "length (snd (snd (ConsumePartialComplexSelector nested env st rng c s f))) \<le> length rng"
proof (induction nested env st rng c s f rule: ConsumePartialComplexSelector.induct)
  case (1 nested env st rng c s f)
  obtain r st1 rng1 where cs: "ConsumeCompoundSelector nested env st rng = (r, st1, rng1)"
    by (cases "ConsumeCompoundSelector nested env st rng") auto
  have le: "length rng1 \<le> length rng"
    using ConsumeCompoundSelector_length [of nested env st rng] cs by simp
  have le2: "length (snd (ConsumeCombinator rng1)) \<le> length rng"
    using le ConsumeCombinator_length [of rng1] by simp
  show ?case
  proof (cases r)
    case None
    with cs le show ?thesis
      by (simp add: ConsumePartialComplexSelector.simps [of nested env st rng])
  next
    case (Some n)
    show ?thesis
    proof (cases "f AND kHasPseudoElementForRightmostCompound \<noteq> 0
                  \<or> fst (ConsumeCombinator rng1) = kSubSelector")
      case True
      with cs Some le le2 show ?thesis
        by (auto simp: ConsumePartialComplexSelector.simps [of nested env st rng] Let_def)
    next
      case False
      then have a: "f AND kHasPseudoElementForRightmostCompound = 0"
        and b: "fst (ConsumeCombinator rng1) \<noteq> kSubSelector" by auto
      from 1 [OF cs [symmetric, unfolded Some] refl refl _ refl refl refl refl b] a
      have "length (snd (snd (ConsumePartialComplexSelector nested env st1
               (snd (ConsumeCombinator rng1)) (fst (ConsumeCombinator rng1))
               (AppendTagHistory c s n) (CompoundFlags (Mode (parser_context env)) n))))
             \<le> length (snd (ConsumeCombinator rng1))"
        by simp
      with cs Some a b le2 show ?thesis
        by (simp add: ConsumePartialComplexSelector.simps [of nested env st rng] Let_def)
    qed
  qed
qed

lemma ConsumeComplexSelector_length:
  "length (snd (snd (ConsumeComplexSelector nested env st rng))) \<le> length rng"
proof -
  obtain r st1 rng1 where cs: "ConsumeCompoundSelector nested env st rng = (r, st1, rng1)"
    by (cases "ConsumeCompoundSelector nested env st rng") auto
  have le: "length rng1 \<le> length rng"
    using ConsumeCompoundSelector_length [of nested env st rng] cs by simp
  have le2: "length (snd (ConsumeCombinator rng1)) \<le> length rng"
    using le ConsumeCombinator_length [of rng1] by simp
  have "\<And>s c sel f. length (snd (snd (ConsumePartialComplexSelector nested env s
           (snd (ConsumeCombinator rng1)) c sel f))) \<le> length rng"
    using ConsumePartialComplexSelector_length le2 order_trans by blast
  from this [of st1] this [of "st1\<lparr>found_complex_logical_combinations_in_has_argument := True\<rparr>"]
    cs le le2
  show ?thesis
    by (cases r) (simp_all add: ConsumeComplexSelector_def Let_def)
qed

lemma ConsumeRelativeSelector_length:
  "length (snd (snd (ConsumeRelativeSelector nested env st rng))) \<le> length rng"
proof -
  have "\<And>c sel f. length (snd (snd (ConsumePartialComplexSelector nested env st
           (snd (ConsumeCombinator rng)) c sel f))) \<le> length rng"
    using ConsumePartialComplexSelector_length ConsumeCombinator_length [of rng] order_trans
    by blast
  then show ?thesis
    using ConsumeCombinator_length [of rng]
    by (simp add: ConsumeRelativeSelector_def Let_def split: option.splits)
qed

section \<open>Selector lists\<close>

lemma ConsumeNestedArgument_length:
  "length (snd (ConsumeNestedArgument rng)) \<le> length rng"
proof (induction rng rule: ConsumeNestedArgument.induct)
  case (1 rng)
  show ?case
  proof (cases "\<not> AtEnd rng \<and> GetType (Peek rng) \<noteq> kCommaToken")
    case False
    then show ?thesis by (subst ConsumeNestedArgument.simps) auto
  next
    case True
    show ?thesis
    proof (cases "GetBlockType (Peek rng) = kBlockStart")
      case b: True
      obtain block rng1 where cb: "ConsumeBlock rng = (block, rng1)"
        by (cases "ConsumeBlock rng") auto
      have "length rng1 \<le> length rng"
        using ConsumeBlock_rest_length [of rng] cb by simp
      moreover have "length (snd (ConsumeNestedArgument rng1)) \<le> length rng1"
        using 1(1) [OF True b refl cb [symmetric]] .
      ultimately show ?thesis
        using True b cb by (subst ConsumeNestedArgument.simps) (auto simp: case_prod_beta)
    next
      case b: False
      obtain token rng1 where cb: "Consume rng = (token, rng1)"
        by (cases "Consume rng") auto
      have "length rng1 \<le> length rng"
        using Consume_length [of rng] cb by simp
      moreover have "length (snd (ConsumeNestedArgument rng1)) \<le> length rng1"
        using 1(2) [OF True b refl cb [symmetric]] .
      ultimately show ?thesis
        using True b cb by (subst ConsumeNestedArgument.simps) (auto simp: case_prod_beta)
    qed
  qed
qed

declare ConsumeNestedArgument.simps [simp del]

text \<open>
  \<open>ConsumeComplexSelectorList\<close>: the loop over the members after the first. A null
  member returns the empty vector at once; after the last member the failure flag
  decides.
\<close>

function ConsumeComplexSelectorList_loop ::
  "NestedParser \<Rightarrow> ParserEnv \<Rightarrow> CSSSelectorParser \<Rightarrow> CSSParserTokenRange \<Rightarrow> CSSSelectorVector
     \<Rightarrow> CSSSelectorVector \<times> CSSSelectorParser \<times> CSSParserTokenRange" where
  "ConsumeComplexSelectorList_loop nested env st rng selector_list =
     (if \<not> AtEnd rng \<and> GetType (Peek rng) = kCommaToken then
        (case ConsumeComplexSelector nested env st (snd (ConsumeIncludingWhitespace rng)) of
           (None, st1, rng1) \<Rightarrow> ([], st1, rng1)
         | (Some selector, st1, rng1) \<Rightarrow>
             ConsumeComplexSelectorList_loop nested env st1 rng1 (selector_list @ [selector]))
      else if failed_parsing st then ([], st, rng)
      else (selector_list, st, rng))"
  by pat_completeness auto
termination
proof (relation "measure (\<lambda>(nested, env, st, rng, l). length rng)", goal_cases)
  case 1
  show ?case by simp
next
  case (2 nested env st rng selector_list x1 x2 x3 x4 x5)
  then have "ConsumeComplexSelector nested env st (snd (ConsumeIncludingWhitespace rng))
               = (Some x3, x4, x5)"
    by (metis prod.collapse prod.inject)
  then have "length x5 \<le> length (snd (ConsumeIncludingWhitespace rng))"
    using ConsumeComplexSelector_length
            [of nested env st "snd (ConsumeIncludingWhitespace rng)"] by simp
  moreover have "length (snd (ConsumeIncludingWhitespace rng)) < length rng"
    using 2(1) by (intro ConsumeIncludingWhitespace_length_less) (simp add: AtEnd_def)
  ultimately show ?case by simp
qed

declare ConsumeComplexSelectorList_loop.simps [simp del]

definition ConsumeComplexSelectorList ::
  "NestedParser \<Rightarrow> ParserEnv \<Rightarrow> CSSSelectorParser \<Rightarrow> CSSParserTokenRange
     \<Rightarrow> CSSSelectorVector \<times> CSSSelectorParser \<times> CSSParserTokenRange" where
  "ConsumeComplexSelectorList nested env st rng =
     (case ConsumeComplexSelector nested env st rng of
        (None, st1, rng1) \<Rightarrow> ([], st1, rng1)
      | (Some selector, st1, rng1) \<Rightarrow>
          ConsumeComplexSelectorList_loop nested env st1 rng1 [selector])"

text \<open>
  \<open>ConsumeCompoundSelectorList\<close>: the same with compound selectors; whitespace after
  each compound is consumed before the null test.
\<close>

function ConsumeCompoundSelectorList_loop ::
  "NestedParser \<Rightarrow> ParserEnv \<Rightarrow> CSSSelectorParser \<Rightarrow> CSSParserTokenRange \<Rightarrow> CSSSelectorVector
     \<Rightarrow> CSSSelectorList \<times> CSSSelectorParser \<times> CSSParserTokenRange" where
  "ConsumeCompoundSelectorList_loop nested env st rng selector_list =
     (if \<not> AtEnd rng \<and> GetType (Peek rng) = kCommaToken then
        (case ConsumeCompoundSelector nested env st (snd (ConsumeIncludingWhitespace rng)) of
           (None, st1, rng1) \<Rightarrow> ([], st1, ConsumeWhitespace rng1)
         | (Some selector, st1, rng1) \<Rightarrow>
             ConsumeCompoundSelectorList_loop nested env st1 (ConsumeWhitespace rng1)
               (selector_list @ [selector]))
      else if failed_parsing st then ([], st, rng)
      else (selector_list, st, rng))"
  by pat_completeness auto
termination
proof (relation "measure (\<lambda>(nested, env, st, rng, l). length rng)", goal_cases)
  case 1
  show ?case by simp
next
  case (2 nested env st rng selector_list x1 x2 x3 x4 x5)
  then have "ConsumeCompoundSelector nested env st (snd (ConsumeIncludingWhitespace rng))
               = (Some x3, x4, x5)"
    by (metis prod.collapse prod.inject)
  then have "length x5 \<le> length (snd (ConsumeIncludingWhitespace rng))"
    using ConsumeCompoundSelector_length
            [of nested env st "snd (ConsumeIncludingWhitespace rng)"] by simp
  moreover have "length (snd (ConsumeIncludingWhitespace rng)) < length rng"
    using 2(1) by (intro ConsumeIncludingWhitespace_length_less) (simp add: AtEnd_def)
  ultimately show ?case using ConsumeWhitespace_length [of x5] by simp
qed

declare ConsumeCompoundSelectorList_loop.simps [simp del]

definition ConsumeCompoundSelectorList ::
  "NestedParser \<Rightarrow> ParserEnv \<Rightarrow> CSSSelectorParser \<Rightarrow> CSSParserTokenRange
     \<Rightarrow> CSSSelectorList \<times> CSSSelectorParser \<times> CSSParserTokenRange" where
  "ConsumeCompoundSelectorList nested env st rng =
     (case ConsumeCompoundSelector nested env st rng of
        (None, st1, rng1) \<Rightarrow> ([], st1, ConsumeWhitespace rng1)
      | (Some selector, st1, rng1) \<Rightarrow>
          ConsumeCompoundSelectorList_loop nested env st1 (ConsumeWhitespace rng1) [selector])"

definition ConsumeNestedSelectorList ::
  "NestedParser \<Rightarrow> ParserEnv \<Rightarrow> CSSSelectorParser \<Rightarrow> CSSParserTokenRange
     \<Rightarrow> CSSSelectorList \<times> CSSSelectorParser \<times> CSSParserTokenRange" where
  "ConsumeNestedSelectorList nested env st rng =
     (if inside_compound_pseudo st then ConsumeCompoundSelectorList nested env st rng
      else ConsumeComplexSelectorList nested env st rng)"

text \<open>
  The forgiving lists. Each member is the argument up to the next comma outside any
  block; it is parsed with the failure flag reset, kept when it parsed, did not fail
  and was consumed to its end, and the failure flag is put back to its value before
  the member.
\<close>

function ConsumeForgivingComplexSelectorList_loop ::
  "NestedParser \<Rightarrow> ParserEnv \<Rightarrow> CSSSelectorParser \<Rightarrow> CSSParserTokenRange \<Rightarrow> CSSSelectorVector
     \<Rightarrow> CSSSelectorList \<times> CSSSelectorParser \<times> CSSParserTokenRange" where
  "ConsumeForgivingComplexSelectorList_loop nested env st rng selector_list =
     (if \<not> AtEnd rng then
        (let argument = fst (ConsumeNestedArgument rng);
             rng1 = snd (ConsumeNestedArgument rng);
             (selector, st1, argument1) =
                ConsumeComplexSelector nested env (st\<lparr>failed_parsing := False\<rparr>) argument;
             selector_list1 =
                (case selector of
                   Some s \<Rightarrow> if \<not> failed_parsing st1 \<and> AtEnd argument1
                             then selector_list @ [s] else selector_list
                 | None \<Rightarrow> selector_list);
             st2 = st1\<lparr>failed_parsing := failed_parsing st\<rparr>
         in
         if GetType (Peek rng1) \<noteq> kCommaToken then (selector_list1, st2, rng1)
         else ConsumeForgivingComplexSelectorList_loop nested env st2
                (snd (ConsumeIncludingWhitespace rng1)) selector_list1)
      else (selector_list, st, rng))"
  by pat_completeness auto
termination
proof (relation "measure (\<lambda>(nested, env, st, rng, l). length rng)", goal_cases)
  case 1
  show ?case by simp
next
  case (2 nested env st rng selector_list argument rng1 x selector y st1 argument1
          selector_list1 st2)
  then have "rng1 \<noteq> []" by (auto simp: Peek_def)
  then have "length (snd (ConsumeIncludingWhitespace rng1)) < length rng1"
    by (rule ConsumeIncludingWhitespace_length_less)
  moreover have "length rng1 \<le> length rng"
    using 2 ConsumeNestedArgument_length [of rng] by simp
  ultimately show ?case by simp
qed

declare ConsumeForgivingComplexSelectorList_loop.simps [simp del]

definition ConsumeForgivingComplexSelectorList ::
  "NestedParser \<Rightarrow> ParserEnv \<Rightarrow> CSSSelectorParser \<Rightarrow> CSSParserTokenRange
     \<Rightarrow> CSSSelectorList \<times> CSSSelectorParser \<times> CSSParserTokenRange" where
  "ConsumeForgivingComplexSelectorList nested env st rng =
     ConsumeForgivingComplexSelectorList_loop nested env st rng []"

function ConsumeForgivingCompoundSelectorList_loop ::
  "NestedParser \<Rightarrow> ParserEnv \<Rightarrow> CSSSelectorParser \<Rightarrow> CSSParserTokenRange \<Rightarrow> CSSSelectorVector
     \<Rightarrow> CSSSelectorList \<times> CSSSelectorParser \<times> CSSParserTokenRange" where
  "ConsumeForgivingCompoundSelectorList_loop nested env st rng selector_list =
     (if \<not> AtEnd rng then
        (let argument = fst (ConsumeNestedArgument rng);
             rng1 = snd (ConsumeNestedArgument rng);
             (selector, st1, argument1) =
                ConsumeCompoundSelector nested env (st\<lparr>failed_parsing := False\<rparr>) argument;
             argument2 = ConsumeWhitespace argument1;
             selector_list1 =
                (case selector of
                   Some s \<Rightarrow> if \<not> failed_parsing st1 \<and> AtEnd argument2
                             then selector_list @ [s] else selector_list
                 | None \<Rightarrow> selector_list);
             st2 = st1\<lparr>failed_parsing := failed_parsing st\<rparr>
         in
         if GetType (Peek rng1) \<noteq> kCommaToken then (selector_list1, st2, rng1)
         else ConsumeForgivingCompoundSelectorList_loop nested env st2
                (snd (ConsumeIncludingWhitespace rng1)) selector_list1)
      else (selector_list, st, rng))"
  by pat_completeness auto
termination
proof (relation "measure (\<lambda>(nested, env, st, rng, l). length rng)", goal_cases)
  case 1
  show ?case by simp
next
  case (2 nested env st rng selector_list argument rng1 x selector y st1 argument1
          argument2 selector_list1 st2)
  then have "rng1 \<noteq> []" by (auto simp: Peek_def)
  then have "length (snd (ConsumeIncludingWhitespace rng1)) < length rng1"
    by (rule ConsumeIncludingWhitespace_length_less)
  moreover have "length rng1 \<le> length rng"
    using 2 ConsumeNestedArgument_length [of rng] by simp
  ultimately show ?case by simp
qed

declare ConsumeForgivingCompoundSelectorList_loop.simps [simp del]

definition ConsumeForgivingCompoundSelectorList ::
  "NestedParser \<Rightarrow> ParserEnv \<Rightarrow> CSSSelectorParser \<Rightarrow> CSSParserTokenRange
     \<Rightarrow> CSSSelectorList \<times> CSSSelectorParser \<times> CSSParserTokenRange" where
  "ConsumeForgivingCompoundSelectorList nested env st rng =
     ConsumeForgivingCompoundSelectorList_loop nested env st rng []"

definition ConsumeForgivingNestedSelectorList ::
  "NestedParser \<Rightarrow> ParserEnv \<Rightarrow> CSSSelectorParser \<Rightarrow> CSSParserTokenRange
     \<Rightarrow> CSSSelectorList \<times> CSSSelectorParser \<times> CSSParserTokenRange" where
  "ConsumeForgivingNestedSelectorList nested env st rng =
     (if inside_compound_pseudo st then ConsumeForgivingCompoundSelectorList nested env st rng
      else ConsumeForgivingComplexSelectorList nested env st rng)"

function ConsumeForgivingRelativeSelectorList_loop ::
  "NestedParser \<Rightarrow> ParserEnv \<Rightarrow> CSSSelectorParser \<Rightarrow> CSSParserTokenRange \<Rightarrow> CSSSelectorVector
     \<Rightarrow> CSSSelectorList \<times> CSSSelectorParser \<times> CSSParserTokenRange" where
  "ConsumeForgivingRelativeSelectorList_loop nested env st rng selector_list =
     (if \<not> AtEnd rng then
        (let argument = fst (ConsumeNestedArgument rng);
             rng1 = snd (ConsumeNestedArgument rng);
             (selector, st1, argument1) =
                ConsumeRelativeSelector nested env (st\<lparr>failed_parsing := False\<rparr>) argument;
             selector_list1 =
                (case selector of
                   Some s \<Rightarrow> if \<not> failed_parsing st1 \<and> AtEnd argument1
                             then selector_list @ [s] else selector_list
                 | None \<Rightarrow> selector_list);
             st2 = st1\<lparr>failed_parsing := failed_parsing st\<rparr>
         in
         if GetType (Peek rng1) \<noteq> kCommaToken then (selector_list1, st2, rng1)
         else ConsumeForgivingRelativeSelectorList_loop nested env st2
                (snd (ConsumeIncludingWhitespace rng1)) selector_list1)
      else (selector_list, st, rng))"
  by pat_completeness auto
termination
proof (relation "measure (\<lambda>(nested, env, st, rng, l). length rng)", goal_cases)
  case 1
  show ?case by simp
next
  case (2 nested env st rng selector_list argument rng1 x selector y st1 argument1
          selector_list1 st2)
  then have "rng1 \<noteq> []" by (auto simp: Peek_def)
  then have "length (snd (ConsumeIncludingWhitespace rng1)) < length rng1"
    by (rule ConsumeIncludingWhitespace_length_less)
  moreover have "length rng1 \<le> length rng"
    using 2 ConsumeNestedArgument_length [of rng] by simp
  ultimately show ?case by simp
qed

declare ConsumeForgivingRelativeSelectorList_loop.simps [simp del]

text \<open>
  \<open>ConsumeForgivingRelativeSelectorList\<close>: after the loop, \<open>:has()\<close> inside a
  pseudo that takes compounds only, or after a pseudo-element, yields the empty list;
  an empty list of members sets the failure flag.
\<close>

definition ConsumeForgivingRelativeSelectorList ::
  "NestedParser \<Rightarrow> ParserEnv \<Rightarrow> CSSSelectorParser \<Rightarrow> CSSParserTokenRange
     \<Rightarrow> CSSSelectorList \<times> CSSSelectorParser \<times> CSSParserTokenRange" where
  "ConsumeForgivingRelativeSelectorList nested env st rng =
     (let (selector_list, st1, rng1) =
             ConsumeForgivingRelativeSelectorList_loop nested env st rng []
      in
      if inside_compound_pseudo st1 \<or> restricting_pseudo_element st1 \<noteq> kPseudoUnknown
      then ([], st1, rng1)
      else if selector_list = [] then ([], st1\<lparr>failed_parsing := True\<rparr>, rng1)
      else (selector_list, st1, rng1))"

section \<open>Closing the recursion\<close>

text \<open>
  Two nested parsers that agree on every block shorter than \<open>n\<close>. Each function of
  the parser calls \<open>nested\<close> only on blocks shorter than its range, so its result
  depends on \<open>nested\<close> below the length of the range only.
\<close>

definition agree_below :: "nat \<Rightarrow> NestedParser \<Rightarrow> NestedParser \<Rightarrow> bool" where
  "agree_below n nested nested' =
     (\<forall>call st block. length block < n \<longrightarrow> nested call st block = nested' call st block)"

lemma agree_below_mono: "agree_below n f g \<Longrightarrow> m \<le> n \<Longrightarrow> agree_below m f g"
  by (auto simp: agree_below_def)

lemma agree_belowD: "agree_below n f g \<Longrightarrow> length b < n \<Longrightarrow> f c s b = g c s b"
  by (auto simp: agree_below_def)

lemma ConsumePseudoArguments_agree:
  assumes "agree_below (Suc (length block)) nested nested'"
  shows "ConsumePseudoArguments nested env st selector block
           = ConsumePseudoArguments nested' env st selector block"
proof -
  have h: "\<And>c s. nested c s block = nested' c s block"
    using assms by (simp add: agree_below_def)
  show ?thesis
    by (simp only: ConsumePseudoArguments_def h)
qed

lemma ConsumePseudo_agree:
  assumes "agree_below (length rng) nested nested'"
  shows "ConsumePseudo nested env st rng = ConsumePseudo nested' env st rng"
proof -
  let ?r = "after_colons rng"
  let ?b = "ConsumeWhitespace (fst (ConsumeBlock ?r))"
  have "GetType (Peek ?r) = kFunctionToken \<Longrightarrow>
          ConsumePseudoArguments nested env s sel ?b = ConsumePseudoArguments nested' env s sel ?b"
    for s sel
  proof -
    assume "GetType (Peek ?r) = kFunctionToken"
    then have "?r \<noteq> []" by (auto simp: Peek_def)
    then have "length ?b < length rng"
      using ConsumeBlock_block_length_less [of ?r] after_colons_length [of rng]
        ConsumeWhitespace_length [of "fst (ConsumeBlock ?r)"] by linarith
    then have "agree_below (Suc (length ?b)) nested nested'"
      using assms agree_below_mono by (metis Suc_leI)
    then show ?thesis by (rule ConsumePseudoArguments_agree)
  qed
  then show ?thesis
    by (auto simp: ConsumePseudo_def Let_def after_colons_def)
qed

lemma ConsumeSimpleSelector_agree:
  assumes "agree_below (length rng) nested nested'"
  shows "ConsumeSimpleSelector nested env st rng = ConsumeSimpleSelector nested' env st rng"
  by (simp only: ConsumeSimpleSelector_def ConsumePseudo_agree [OF assms])

lemma ConsumeSimpleSelectors_agree:
  "agree_below (length rng) nested nested' \<Longrightarrow>
   ConsumeSimpleSelectors nested env st rng c = ConsumeSimpleSelectors nested' env st rng c"
proof (induction nested env st rng c rule: ConsumeSimpleSelectors.induct)
  case (1 nested env st rng c)
  have eq: "ConsumeSimpleSelector nested env st rng = ConsumeSimpleSelector nested' env st rng"
    using 1(2) by (rule ConsumeSimpleSelector_agree)
  obtain r st1 rng1 where cs: "ConsumeSimpleSelector nested env st rng = (r, st1, rng1)"
    by (cases "ConsumeSimpleSelector nested env st rng") auto
  have le: "length rng1 \<le> length rng"
    using ConsumeSimpleSelector_length [of nested env st rng] cs by simp
  show ?case
  proof (cases r)
    case None
    with cs eq show ?thesis
      by (simp add: ConsumeSimpleSelectors.simps [of _ env st rng])
  next
    case (Some s)
    have "agree_below (length rng1) nested nested'"
      using 1(2) le by (rule agree_below_mono)
    from 1(1) [OF cs [symmetric, unfolded Some] refl refl refl refl this] cs eq Some
    show ?thesis
      by (simp add: ConsumeSimpleSelectors.simps [of _ env st rng] Let_def)
  qed
qed

lemma ConsumeCompoundSelector_agree:
  assumes "agree_below (length rng) nested nested'"
  shows "ConsumeCompoundSelector nested env st rng = ConsumeCompoundSelector nested' env st rng"
proof -
  let ?n = "ConsumeName (externals env) rng"
  let ?rng1 = "snd (snd (snd ?n))"
  have a1: "agree_below (length ?rng1) nested nested'"
    using assms ConsumeName_length by (rule agree_below_mono)
  have eq: "ConsumeSimpleSelector nested env st ?rng1 = ConsumeSimpleSelector nested' env st ?rng1"
    using a1 by (rule ConsumeSimpleSelector_agree)
  have eq1: "\<And>s c. ConsumeSimpleSelectors nested env s ?rng1 c
                = ConsumeSimpleSelectors nested' env s ?rng1 c"
    using a1 by (rule ConsumeSimpleSelectors_agree)
  obtain r st1 rng2 where cs: "ConsumeSimpleSelector nested env st ?rng1 = (r, st1, rng2)"
    by (cases "ConsumeSimpleSelector nested env st ?rng1") auto
  have "length rng2 \<le> length ?rng1"
    using ConsumeSimpleSelector_length [of nested env st ?rng1] cs by simp
  then have "agree_below (length rng2) nested nested'"
    using a1 agree_below_mono by blast
  then have eq2: "\<And>s c. ConsumeSimpleSelectors nested env s rng2 c
                = ConsumeSimpleSelectors nested' env s rng2 c"
    by (rule ConsumeSimpleSelectors_agree)
  have cs': "ConsumeSimpleSelector nested' env st ?rng1 = (r, st1, rng2)"
    using cs eq by simp
  show ?thesis
  proof (cases "fst ?n")
    case True
    then show ?thesis
      by (simp add: ConsumeCompoundSelector_def Let_def case_prod_beta eq1)
  next
    case False
    then show ?thesis
      by (cases r) (simp_all add: ConsumeCompoundSelector_def Let_def case_prod_beta cs cs' eq2)
  qed
qed

lemma ConsumePartialComplexSelector_agree:
  "agree_below (length rng) nested nested' \<Longrightarrow>
   ConsumePartialComplexSelector nested env st rng c s f
     = ConsumePartialComplexSelector nested' env st rng c s f"
proof (induction nested env st rng c s f rule: ConsumePartialComplexSelector.induct)
  case (1 nested env st rng c s f)
  have eq: "ConsumeCompoundSelector nested env st rng = ConsumeCompoundSelector nested' env st rng"
    using 1(2) by (rule ConsumeCompoundSelector_agree)
  obtain r st1 rng1 where cs: "ConsumeCompoundSelector nested env st rng = (r, st1, rng1)"
    by (cases "ConsumeCompoundSelector nested env st rng") auto
  have cs': "ConsumeCompoundSelector nested' env st rng = (r, st1, rng1)"
    using cs eq by simp
  have le: "length (snd (ConsumeCombinator rng1)) \<le> length rng"
    using ConsumeCompoundSelector_length [of nested env st rng] cs
      ConsumeCombinator_length [of rng1] by simp
  show ?case
  proof (cases r)
    case None
    with cs cs' show ?thesis
      by (simp add: ConsumePartialComplexSelector.simps [of _ env st rng])
  next
    case (Some n)
    show ?thesis
    proof (cases "f AND kHasPseudoElementForRightmostCompound \<noteq> 0
                  \<or> fst (ConsumeCombinator rng1) = kSubSelector")
      case True
      with cs cs' Some show ?thesis
        by (auto simp: ConsumePartialComplexSelector.simps [of _ env st rng] Let_def)
    next
      case False
      then have a: "f AND kHasPseudoElementForRightmostCompound = 0"
        and b: "fst (ConsumeCombinator rng1) \<noteq> kSubSelector" by auto
      have ag: "agree_below (length (snd (ConsumeCombinator rng1))) nested nested'"
        using 1(2) le by (rule agree_below_mono)
      from 1(1) [OF cs [symmetric, unfolded Some] refl refl _ refl refl refl refl b ag] a
      have "ConsumePartialComplexSelector nested env st1
               (snd (ConsumeCombinator rng1)) (fst (ConsumeCombinator rng1))
               (AppendTagHistory c s n) (CompoundFlags (Mode (parser_context env)) n)
            = ConsumePartialComplexSelector nested' env st1
               (snd (ConsumeCombinator rng1)) (fst (ConsumeCombinator rng1))
               (AppendTagHistory c s n) (CompoundFlags (Mode (parser_context env)) n)"
        by simp
      with cs cs' Some a b show ?thesis
        by (simp add: ConsumePartialComplexSelector.simps [of _ env st rng] Let_def)
    qed
  qed
qed

lemma ConsumeComplexSelector_agree:
  assumes "agree_below (length rng) nested nested'"
  shows "ConsumeComplexSelector nested env st rng = ConsumeComplexSelector nested' env st rng"
proof -
  have eq: "ConsumeCompoundSelector nested env st rng = ConsumeCompoundSelector nested' env st rng"
    using assms by (rule ConsumeCompoundSelector_agree)
  obtain r st1 rng1 where cs: "ConsumeCompoundSelector nested env st rng = (r, st1, rng1)"
    by (cases "ConsumeCompoundSelector nested env st rng") auto
  have cs': "ConsumeCompoundSelector nested' env st rng = (r, st1, rng1)"
    using cs eq by simp
  have le: "length (snd (ConsumeCombinator rng1)) \<le> length rng"
    using ConsumeCompoundSelector_length [of nested env st rng] cs
      ConsumeCombinator_length [of rng1] by simp
  have "agree_below (length (snd (ConsumeCombinator rng1))) nested nested'"
    using assms le by (rule agree_below_mono)
  then have "\<And>s c sel f. ConsumePartialComplexSelector nested env s
                 (snd (ConsumeCombinator rng1)) c sel f
               = ConsumePartialComplexSelector nested' env s
                 (snd (ConsumeCombinator rng1)) c sel f"
    by (rule ConsumePartialComplexSelector_agree)
  with cs cs' show ?thesis
    by (cases r) (simp_all add: ConsumeComplexSelector_def Let_def)
qed

lemma ConsumeRelativeSelector_agree:
  assumes "agree_below (length rng) nested nested'"
  shows "ConsumeRelativeSelector nested env st rng = ConsumeRelativeSelector nested' env st rng"
proof -
  have "agree_below (length (snd (ConsumeCombinator rng))) nested nested'"
    using assms ConsumeCombinator_length by (rule agree_below_mono)
  then have "\<And>s c sel f. ConsumePartialComplexSelector nested env s
                 (snd (ConsumeCombinator rng)) c sel f
               = ConsumePartialComplexSelector nested' env s
                 (snd (ConsumeCombinator rng)) c sel f"
    by (rule ConsumePartialComplexSelector_agree)
  then show ?thesis
    by (simp add: ConsumeRelativeSelector_def Let_def split: option.splits)
qed

lemma ConsumeComplexSelectorList_loop_agree:
  "agree_below (length rng) nested nested' \<Longrightarrow>
   ConsumeComplexSelectorList_loop nested env st rng l
     = ConsumeComplexSelectorList_loop nested' env st rng l"
proof (induction nested env st rng l rule: ConsumeComplexSelectorList_loop.induct)
  case (1 nested env st rng l)
  show ?case
  proof (cases "\<not> AtEnd rng \<and> GetType (Peek rng) = kCommaToken")
    case False
    then show ?thesis
      by (auto simp: ConsumeComplexSelectorList_loop.simps [of _ env st rng])
  next
    case True
    let ?r = "snd (ConsumeIncludingWhitespace rng)"
    have ag: "agree_below (length ?r) nested nested'"
      using 1(2) ConsumeIncludingWhitespace_length by (rule agree_below_mono)
    have eq: "ConsumeComplexSelector nested env st ?r = ConsumeComplexSelector nested' env st ?r"
      using ag by (rule ConsumeComplexSelector_agree)
    obtain r st1 rng1 where cs: "ConsumeComplexSelector nested env st ?r = (r, st1, rng1)"
      by (cases "ConsumeComplexSelector nested env st ?r") auto
    have cs': "ConsumeComplexSelector nested' env st ?r = (r, st1, rng1)"
      using cs eq by simp
    have "length rng1 \<le> length ?r"
      using ConsumeComplexSelector_length [of nested env st ?r] cs by simp
    then have ag1: "agree_below (length rng1) nested nested'"
      using ag agree_below_mono by blast
    show ?thesis
    proof (cases r)
      case None
      with True cs cs' show ?thesis
        by (simp add: ConsumeComplexSelectorList_loop.simps [of _ env st rng])
    next
      case (Some x)
      from 1(1) [OF True cs [symmetric, unfolded Some] refl refl ag1] True cs cs' Some
      show ?thesis
        by (simp add: ConsumeComplexSelectorList_loop.simps [of _ env st rng])
    qed
  qed
qed

lemma ConsumeComplexSelectorList_agree:
  assumes "agree_below (length rng) nested nested'"
  shows "ConsumeComplexSelectorList nested env st rng
           = ConsumeComplexSelectorList nested' env st rng"
proof -
  have eq: "ConsumeComplexSelector nested env st rng = ConsumeComplexSelector nested' env st rng"
    using assms by (rule ConsumeComplexSelector_agree)
  obtain r st1 rng1 where cs: "ConsumeComplexSelector nested env st rng = (r, st1, rng1)"
    by (cases "ConsumeComplexSelector nested env st rng") auto
  have cs': "ConsumeComplexSelector nested' env st rng = (r, st1, rng1)"
    using cs eq by simp
  have "length rng1 \<le> length rng"
    using ConsumeComplexSelector_length [of nested env st rng] cs by simp
  then have "agree_below (length rng1) nested nested'"
    using assms agree_below_mono by blast
  then have "\<And>s l. ConsumeComplexSelectorList_loop nested env s rng1 l
                = ConsumeComplexSelectorList_loop nested' env s rng1 l"
    by (rule ConsumeComplexSelectorList_loop_agree)
  with cs cs' show ?thesis
    by (cases r) (simp_all add: ConsumeComplexSelectorList_def)
qed

lemma ConsumeCompoundSelectorList_loop_agree:
  "agree_below (length rng) nested nested' \<Longrightarrow>
   ConsumeCompoundSelectorList_loop nested env st rng l
     = ConsumeCompoundSelectorList_loop nested' env st rng l"
proof (induction nested env st rng l rule: ConsumeCompoundSelectorList_loop.induct)
  case (1 nested env st rng l)
  show ?case
  proof (cases "\<not> AtEnd rng \<and> GetType (Peek rng) = kCommaToken")
    case False
    then show ?thesis
      by (auto simp: ConsumeCompoundSelectorList_loop.simps [of _ env st rng])
  next
    case True
    let ?r = "snd (ConsumeIncludingWhitespace rng)"
    have ag: "agree_below (length ?r) nested nested'"
      using 1(2) ConsumeIncludingWhitespace_length by (rule agree_below_mono)
    have eq: "ConsumeCompoundSelector nested env st ?r = ConsumeCompoundSelector nested' env st ?r"
      using ag by (rule ConsumeCompoundSelector_agree)
    obtain r st1 rng1 where cs: "ConsumeCompoundSelector nested env st ?r = (r, st1, rng1)"
      by (cases "ConsumeCompoundSelector nested env st ?r") auto
    have cs': "ConsumeCompoundSelector nested' env st ?r = (r, st1, rng1)"
      using cs eq by simp
    have "length (ConsumeWhitespace rng1) \<le> length ?r"
      using ConsumeCompoundSelector_length [of nested env st ?r] cs
        ConsumeWhitespace_length [of rng1] by simp
    then have ag1: "agree_below (length (ConsumeWhitespace rng1)) nested nested'"
      using ag agree_below_mono by blast
    show ?thesis
    proof (cases r)
      case None
      with True cs cs' show ?thesis
        by (simp add: ConsumeCompoundSelectorList_loop.simps [of _ env st rng])
    next
      case (Some x)
      from 1(1) [OF True cs [symmetric, unfolded Some] refl refl ag1] True cs cs' Some
      show ?thesis
        by (simp add: ConsumeCompoundSelectorList_loop.simps [of _ env st rng])
    qed
  qed
qed

lemma ConsumeCompoundSelectorList_agree:
  assumes "agree_below (length rng) nested nested'"
  shows "ConsumeCompoundSelectorList nested env st rng
           = ConsumeCompoundSelectorList nested' env st rng"
proof -
  have eq: "ConsumeCompoundSelector nested env st rng = ConsumeCompoundSelector nested' env st rng"
    using assms by (rule ConsumeCompoundSelector_agree)
  obtain r st1 rng1 where cs: "ConsumeCompoundSelector nested env st rng = (r, st1, rng1)"
    by (cases "ConsumeCompoundSelector nested env st rng") auto
  have cs': "ConsumeCompoundSelector nested' env st rng = (r, st1, rng1)"
    using cs eq by simp
  have "length (ConsumeWhitespace rng1) \<le> length rng"
    using ConsumeCompoundSelector_length [of nested env st rng] cs
      ConsumeWhitespace_length [of rng1] by simp
  then have "agree_below (length (ConsumeWhitespace rng1)) nested nested'"
    using assms agree_below_mono by blast
  then have "\<And>s l. ConsumeCompoundSelectorList_loop nested env s (ConsumeWhitespace rng1) l
                = ConsumeCompoundSelectorList_loop nested' env s (ConsumeWhitespace rng1) l"
    by (rule ConsumeCompoundSelectorList_loop_agree)
  with cs cs' show ?thesis
    by (cases r) (simp_all add: ConsumeCompoundSelectorList_def)
qed

lemma ConsumeNestedSelectorList_agree:
  assumes "agree_below (length rng) nested nested'"
  shows "ConsumeNestedSelectorList nested env st rng
           = ConsumeNestedSelectorList nested' env st rng"
  using ConsumeCompoundSelectorList_agree [OF assms] ConsumeComplexSelectorList_agree [OF assms]
  by (simp add: ConsumeNestedSelectorList_def)

lemma ConsumeBlock_scan_suffix: "\<exists>k. snd (ConsumeBlock_scan level ts) = drop k ts"
proof (induction level ts rule: ConsumeBlock_scan.induct)
  case (1 level)
  show ?case by simp
next
  case (2 level t ts)
  show ?case
  proof (cases "GetBlockType t")
    case kNotBlock
    with 2(3) obtain k where "snd (ConsumeBlock_scan level ts) = drop k ts" by auto
    then have "snd (ConsumeBlock_scan level (t # ts)) = drop (Suc k) (t # ts)"
      using kNotBlock by (simp add: case_prod_beta)
    then show ?thesis by blast
  next
    case kBlockStart
    with 2(1) obtain k where "snd (ConsumeBlock_scan (Suc level) ts) = drop k ts" by auto
    then have "snd (ConsumeBlock_scan level (t # ts)) = drop (Suc k) (t # ts)"
      using kBlockStart by (simp add: case_prod_beta)
    then show ?thesis by blast
  next
    case kBlockEnd
    show ?thesis
    proof (cases level)
      case 0
      then have "snd (ConsumeBlock_scan level (t # ts)) = drop (Suc 0) (t # ts)"
        using kBlockEnd by simp
      then show ?thesis by blast
    next
      case (Suc l)
      with 2(2) kBlockEnd obtain k where "snd (ConsumeBlock_scan l ts) = drop k ts" by auto
      then have "snd (ConsumeBlock_scan level (t # ts)) = drop (Suc k) (t # ts)"
        using kBlockEnd Suc by (simp add: case_prod_beta)
      then show ?thesis by blast
    qed
  qed
qed

lemma ConsumeBlock_suffix: "\<exists>k. snd (ConsumeBlock rng) = drop k rng"
proof (cases rng)
  case Nil
  then show ?thesis by (simp add: ConsumeBlock_def)
next
  case (Cons t ts)
  obtain k where "snd (ConsumeBlock_scan 0 ts) = drop k ts"
    using ConsumeBlock_scan_suffix by blast
  then have "snd (ConsumeBlock rng) = drop (Suc k) rng"
    using Cons by (simp add: ConsumeBlock_def)
  then show ?thesis by blast
qed

lemma take_drop_suffix: "take (length xs - length (drop k xs)) xs @ drop k xs = xs"
proof (cases "k \<le> length xs")
  case True
  then show ?thesis by simp
next
  case False
  then show ?thesis by simp
qed

lemma ConsumeNestedArgument_append:
  "fst (ConsumeNestedArgument rng) @ snd (ConsumeNestedArgument rng) = rng"
proof (induction rng rule: ConsumeNestedArgument.induct)
  case (1 rng)
  show ?case
  proof (cases "\<not> AtEnd rng \<and> GetType (Peek rng) \<noteq> kCommaToken")
    case False
    then show ?thesis by (subst (1 2) ConsumeNestedArgument.simps) auto
  next
    case True
    show ?thesis
    proof (cases "GetBlockType (Peek rng) = kBlockStart")
      case b: True
      obtain block rng1 where cb: "ConsumeBlock rng = (block, rng1)"
        by (cases "ConsumeBlock rng") auto
      obtain k where k: "rng1 = drop k rng"
        using ConsumeBlock_suffix [of rng] cb by auto
      have ih: "fst (ConsumeNestedArgument rng1) @ snd (ConsumeNestedArgument rng1) = rng1"
        using 1(1) [OF True b refl cb [symmetric]] .
      have "take (length rng - length rng1) rng @ rng1 = rng"
        unfolding k by (rule take_drop_suffix)
      with ih have "take (length rng - length rng1) rng
                      @ fst (ConsumeNestedArgument rng1) @ snd (ConsumeNestedArgument rng1) = rng"
        by simp
      then show ?thesis
        using True b cb by (subst (1 2) ConsumeNestedArgument.simps) (simp add: case_prod_beta)
    next
      case b: False
      obtain token rng1 where cb: "Consume rng = (token, rng1)"
        by (cases "Consume rng") auto
      have ih: "fst (ConsumeNestedArgument rng1) @ snd (ConsumeNestedArgument rng1) = rng1"
        using 1(2) [OF True b refl cb [symmetric]] .
      have "token # rng1 = rng"
        using True cb by (cases rng) (auto simp: Consume_def AtEnd_def)
      with ih have "token # fst (ConsumeNestedArgument rng1) @ snd (ConsumeNestedArgument rng1)
                      = rng"
        by simp
      then show ?thesis
        using True b cb by (subst (1 2) ConsumeNestedArgument.simps) (simp add: case_prod_beta)
    qed
  qed
qed

lemma ConsumeNestedArgument_argument_length:
  "length (fst (ConsumeNestedArgument rng)) \<le> length rng"
  using ConsumeNestedArgument_append [of rng]
  by (metis le_add1 length_append)

lemma ConsumeForgivingComplexSelectorList_loop_agree:
  "agree_below (length rng) nested nested' \<Longrightarrow>
   ConsumeForgivingComplexSelectorList_loop nested env st rng l
     = ConsumeForgivingComplexSelectorList_loop nested' env st rng l"
proof (induction nested env st rng l rule: ConsumeForgivingComplexSelectorList_loop.induct)
  case (1 nested env st rng l)
  show ?case
  proof (cases "AtEnd rng")
    case True
    then show ?thesis
      by (simp add: ConsumeForgivingComplexSelectorList_loop.simps [of _ env st rng])
  next
    case False
    let ?a = "fst (ConsumeNestedArgument rng)"
    let ?r = "snd (ConsumeNestedArgument rng)"
    let ?st = "st\<lparr>failed_parsing := False\<rparr>"
    have ag: "agree_below (length ?a) nested nested'"
      using 1(2) ConsumeNestedArgument_argument_length by (rule agree_below_mono)
    have eq: "ConsumeComplexSelector nested env ?st ?a = ConsumeComplexSelector nested' env ?st ?a"
      using ag by (rule ConsumeComplexSelector_agree)
    obtain r st1 a1 where cs: "ConsumeComplexSelector nested env ?st ?a = (r, st1, a1)"
      by (cases "ConsumeComplexSelector nested env ?st ?a") auto
    have cs': "ConsumeComplexSelector nested' env ?st ?a = (r, st1, a1)"
      using cs eq by simp
    show ?thesis
    proof (cases "GetType (Peek ?r) \<noteq> kCommaToken")
      case True
      with False cs cs' show ?thesis
        by (simp add: ConsumeForgivingComplexSelectorList_loop.simps [of _ env st rng] Let_def)
    next
      case c: False
      have "length (snd (ConsumeIncludingWhitespace ?r)) \<le> length rng"
        using ConsumeIncludingWhitespace_length [of ?r] ConsumeNestedArgument_length [of rng]
        by linarith
      with 1(2) have ag1: "agree_below (length (snd (ConsumeIncludingWhitespace ?r))) nested nested'"
        by (rule agree_below_mono)
      from 1(1) [OF False refl refl refl cs [symmetric] refl refl refl c ag1] False cs cs' c
      show ?thesis
        by (simp add: ConsumeForgivingComplexSelectorList_loop.simps [of _ env st rng] Let_def)
    qed
  qed
qed

lemma ConsumeForgivingCompoundSelectorList_loop_agree:
  "agree_below (length rng) nested nested' \<Longrightarrow>
   ConsumeForgivingCompoundSelectorList_loop nested env st rng l
     = ConsumeForgivingCompoundSelectorList_loop nested' env st rng l"
proof (induction nested env st rng l rule: ConsumeForgivingCompoundSelectorList_loop.induct)
  case (1 nested env st rng l)
  show ?case
  proof (cases "AtEnd rng")
    case True
    then show ?thesis
      by (simp add: ConsumeForgivingCompoundSelectorList_loop.simps [of _ env st rng])
  next
    case False
    let ?a = "fst (ConsumeNestedArgument rng)"
    let ?r = "snd (ConsumeNestedArgument rng)"
    let ?st = "st\<lparr>failed_parsing := False\<rparr>"
    have ag: "agree_below (length ?a) nested nested'"
      using 1(2) ConsumeNestedArgument_argument_length by (rule agree_below_mono)
    have eq: "ConsumeCompoundSelector nested env ?st ?a = ConsumeCompoundSelector nested' env ?st ?a"
      using ag by (rule ConsumeCompoundSelector_agree)
    obtain r st1 a1 where cs: "ConsumeCompoundSelector nested env ?st ?a = (r, st1, a1)"
      by (cases "ConsumeCompoundSelector nested env ?st ?a") auto
    have cs': "ConsumeCompoundSelector nested' env ?st ?a = (r, st1, a1)"
      using cs eq by simp
    show ?thesis
    proof (cases "GetType (Peek ?r) \<noteq> kCommaToken")
      case True
      with False cs cs' show ?thesis
        by (simp add: ConsumeForgivingCompoundSelectorList_loop.simps [of _ env st rng] Let_def)
    next
      case c: False
      have "length (snd (ConsumeIncludingWhitespace ?r)) \<le> length rng"
        using ConsumeIncludingWhitespace_length [of ?r] ConsumeNestedArgument_length [of rng]
        by linarith
      with 1(2) have ag1: "agree_below (length (snd (ConsumeIncludingWhitespace ?r))) nested nested'"
        by (rule agree_below_mono)
      from 1(1) [OF False refl refl refl cs [symmetric] refl refl refl refl c ag1] False cs cs' c
      show ?thesis
        by (simp add: ConsumeForgivingCompoundSelectorList_loop.simps [of _ env st rng] Let_def)
    qed
  qed
qed

lemma ConsumeForgivingRelativeSelectorList_loop_agree:
  "agree_below (length rng) nested nested' \<Longrightarrow>
   ConsumeForgivingRelativeSelectorList_loop nested env st rng l
     = ConsumeForgivingRelativeSelectorList_loop nested' env st rng l"
proof (induction nested env st rng l rule: ConsumeForgivingRelativeSelectorList_loop.induct)
  case (1 nested env st rng l)
  show ?case
  proof (cases "AtEnd rng")
    case True
    then show ?thesis
      by (simp add: ConsumeForgivingRelativeSelectorList_loop.simps [of _ env st rng])
  next
    case False
    let ?a = "fst (ConsumeNestedArgument rng)"
    let ?r = "snd (ConsumeNestedArgument rng)"
    let ?st = "st\<lparr>failed_parsing := False\<rparr>"
    have ag: "agree_below (length ?a) nested nested'"
      using 1(2) ConsumeNestedArgument_argument_length by (rule agree_below_mono)
    have eq: "ConsumeRelativeSelector nested env ?st ?a = ConsumeRelativeSelector nested' env ?st ?a"
      using ag by (rule ConsumeRelativeSelector_agree)
    obtain r st1 a1 where cs: "ConsumeRelativeSelector nested env ?st ?a = (r, st1, a1)"
      by (cases "ConsumeRelativeSelector nested env ?st ?a") auto
    have cs': "ConsumeRelativeSelector nested' env ?st ?a = (r, st1, a1)"
      using cs eq by simp
    show ?thesis
    proof (cases "GetType (Peek ?r) \<noteq> kCommaToken")
      case True
      with False cs cs' show ?thesis
        by (simp add: ConsumeForgivingRelativeSelectorList_loop.simps [of _ env st rng] Let_def)
    next
      case c: False
      have "length (snd (ConsumeIncludingWhitespace ?r)) \<le> length rng"
        using ConsumeIncludingWhitespace_length [of ?r] ConsumeNestedArgument_length [of rng]
        by linarith
      with 1(2) have ag1: "agree_below (length (snd (ConsumeIncludingWhitespace ?r))) nested nested'"
        by (rule agree_below_mono)
      from 1(1) [OF False refl refl refl cs [symmetric] refl refl refl c ag1] False cs cs' c
      show ?thesis
        by (simp add: ConsumeForgivingRelativeSelectorList_loop.simps [of _ env st rng] Let_def)
    qed
  qed
qed


lemma ConsumeForgivingNestedSelectorList_agree:
  assumes "agree_below (length rng) nested nested'"
  shows "ConsumeForgivingNestedSelectorList nested env st rng
           = ConsumeForgivingNestedSelectorList nested' env st rng"
  using ConsumeForgivingCompoundSelectorList_loop_agree [OF assms]
    ConsumeForgivingComplexSelectorList_loop_agree [OF assms]
  by (simp add: ConsumeForgivingNestedSelectorList_def ConsumeForgivingCompoundSelectorList_def
      ConsumeForgivingComplexSelectorList_def)

lemma ConsumeForgivingRelativeSelectorList_agree:
  assumes "agree_below (length rng) nested nested'"
  shows "ConsumeForgivingRelativeSelectorList nested env st rng
           = ConsumeForgivingRelativeSelectorList nested' env st rng"
  using ConsumeForgivingRelativeSelectorList_loop_agree [OF assms]
  by (simp add: ConsumeForgivingRelativeSelectorList_def)

text \<open>
  The five functions of the parser that parse the block of a functional pseudo, by
  the call that names them.
\<close>

definition NestedDispatch ::
  "NestedParser \<Rightarrow> ParserEnv \<Rightarrow> NestedCall \<Rightarrow> CSSSelectorParser \<Rightarrow> CSSParserTokenRange
     \<Rightarrow> CSSSelectorList \<times> CSSSelectorParser \<times> CSSParserTokenRange" where
  "NestedDispatch nested env call st block =
     (case call of
        CallConsumeForgivingNestedSelectorList \<Rightarrow>
          ConsumeForgivingNestedSelectorList nested env st block
      | CallConsumeCompoundSelectorList \<Rightarrow> ConsumeCompoundSelectorList nested env st block
      | CallConsumeForgivingRelativeSelectorList \<Rightarrow>
          ConsumeForgivingRelativeSelectorList nested env st block
      | CallConsumeNestedSelectorList \<Rightarrow> ConsumeNestedSelectorList nested env st block
      | CallConsumeCompoundSelector \<Rightarrow>
          (case ConsumeCompoundSelector nested env st block of
             (None, st1, block1) \<Rightarrow> ([], st1, block1)
           | (Some inner_selector, st1, block1) \<Rightarrow> ([inner_selector], st1, block1)))"

lemma NestedDispatch_agree:
  assumes "agree_below (length block) nested nested'"
  shows "NestedDispatch nested env call st block = NestedDispatch nested' env call st block"
  using ConsumeForgivingNestedSelectorList_agree [OF assms]
    ConsumeCompoundSelectorList_agree [OF assms]
    ConsumeForgivingRelativeSelectorList_agree [OF assms]
    ConsumeNestedSelectorList_agree [OF assms]
    ConsumeCompoundSelector_agree [OF assms]
  by (cases call) (simp_all add: NestedDispatch_def)

lemma NestedDispatch_cong [fundef_cong]:
  assumes "env = env'" "call = call'" "st = st'" "block = block'"
    and "\<And>c s b. length b < length block' \<Longrightarrow> nested c s b = nested' c s b"
  shows "NestedDispatch nested env call st block = NestedDispatch nested' env' call' st' block'"
  using assms NestedDispatch_agree [of block' nested nested' env' call' st']
  by (simp add: agree_below_def)

text \<open>
  \<open>ConsumeNested\<close>: the nested parser of the parser itself. It recurses on blocks
  shorter than its own.
\<close>

function ConsumeNested :: "ParserEnv \<Rightarrow> NestedParser" where
  "ConsumeNested env call st block = NestedDispatch (ConsumeNested env) env call st block"
  by pat_completeness auto
termination
  by (relation "measure (\<lambda>(env, call, st, block). length block)") auto

declare ConsumeNested.simps [simp del]

section \<open>The entry point\<close>

text \<open>
  \<open>ParseSelector\<close>: a new parser, leading whitespace consumed, the list of complex
  selectors, and the empty vector when tokens are left over. The usage counters are
  left out: they do not change the result.
\<close>

definition ParseSelector :: "ParserEnv \<Rightarrow> CSSParserTokenRange \<Rightarrow> CSSSelectorVector" where
  "ParseSelector env rng =
     (let rng1 = ConsumeWhitespace rng;
          (result, st, rng2) = ConsumeComplexSelectorList (ConsumeNested env) env NewParser rng1
      in if \<not> AtEnd rng2 then [] else result)"

section \<open>A sample of the collaborators\<close>

text \<open>
  One instance of the collaborators, for running the parser on examples: a name table
  with a handful of pseudo names, \<open>UpdatePseudoType\<close> over \<open>ParsePseudoType\<close> and
  that table, the shadow-crossing pseudo-elements, the null atom for the universal
  selector, and a stylesheet in which the prefix \<open>ns\<close> is bound and no default
  namespace is declared.
\<close>

definition sample_NameToPseudoType :: "string \<Rightarrow> bool \<Rightarrow> PseudoType" where
  "sample_NameToPseudoType name has_arguments =
     (if has_arguments then
        (if name = ''is'' then kPseudoIs
         else if name = ''where'' then kPseudoWhere
         else if name = ''not'' then kPseudoNot
         else if name = ''has'' then kPseudoHas
         else if name = ''host'' then kPseudoHost
         else if name = ''host-context'' then kPseudoHostContext
         else if name = ''-webkit-any'' then kPseudoAny
         else if name = ''cue'' then kPseudoCue
         else if name = ''part'' then kPseudoPart
         else if name = ''slotted'' then kPseudoSlotted
         else if name = ''nth-child'' then kPseudoNthChild
         else if name = ''lang'' then kPseudoLang
         else kPseudoUnknown)
      else
        (if name = ''hover'' then kPseudoHover
         else if name = ''focus'' then kPseudoFocus
         else if name = ''active'' then kPseudoActive
         else if name = ''before'' then kPseudoBefore
         else if name = ''after'' then kPseudoAfter
         else if name = ''marker'' then kPseudoMarker
         else if name = ''cue'' then kPseudoCue
         else if name = ''host'' then kPseudoHost
         else if name = ''-internal-relative-anchor'' then kPseudoRelativeAnchor
         else kPseudoUnknown))"

text \<open>
  A sample of \<open>CSSSelector::UpdatePseudoType\<close>, which is declared outside the
  parser's source file. The name is lower-cased and looked up with
  \<open>ParsePseudoType\<close>; \<open>:before\<close> and \<open>:after\<close> with one colon are pseudo-elements;
  the type of a pseudo-element written as a pseudo-class, or of a pseudo-class written
  as a pseudo-element, is unknown; an internal pseudo-element is known in user-agent
  sheets only. A custom state keeps the case of its name.
\<close>

definition sample_UpdatePseudoType ::
  "CSSParserMode \<Rightarrow> MatchType \<Rightarrow> string \<Rightarrow> bool \<Rightarrow> MatchType \<times> PseudoType \<times> AtomicString" where
  "sample_UpdatePseudoType parser_mode m name has_arguments =
     (let lower = map ToASCIILower name;
          ty = ParsePseudoType sample_NameToPseudoType True lower has_arguments;
          v = Some (if ty = kPseudoState then name else lower)
      in
      if ty = kPseudoBefore \<or> ty = kPseudoAfter then (kPseudoElement, ty, v)
      else if ty = kPseudoMarker \<or> ty = kPseudoPart \<or> ty = kPseudoSlotted \<or> ty = kPseudoCue
              \<or> ty = kPseudoWebKitCustomElement \<or> ty = kPseudoFileSelectorButton
              \<or> ty = kPseudoSelection \<or> ty = kPseudoHighlight
      then (m, if m = kPseudoElement then ty else kPseudoUnknown, v)
      else if ty = kPseudoBlinkInternalElement
      then (m, if m = kPseudoElement \<and> parser_mode = kUASheetMode then ty
               else kPseudoUnknown, v)
      else (m, if m = kPseudoClass then ty else kPseudoUnknown, v))"

definition sample_externals_in :: "CSSParserMode \<Rightarrow> Externals" where
  "sample_externals_in parser_mode =
     \<lparr>UpdatePseudoType = sample_UpdatePseudoType parser_mode,
      TreeAbidingPseudoElementType =
        (\<lambda>ty. ty = kPseudoBefore \<or> ty = kPseudoAfter \<or> ty = kPseudoMarker
              \<or> ty = kPseudoFileSelectorButton),
      IsAllowedAfterPart =
        (\<lambda>s. Match s = kPseudoElement
             \<and> (GetPseudoType s = kPseudoBefore \<or> GetPseudoType s = kPseudoAfter
                \<or> GetPseudoType s = kPseudoFileSelectorButton)),
      NeedsImplicitShadowCombinatorForMatching =
        (\<lambda>s. Match s = kPseudoElement
             \<and> (GetPseudoType s = kPseudoWebKitCustomElement
                \<or> GetPseudoType s = kPseudoBlinkInternalElement
                \<or> GetPseudoType s = kPseudoCue
                \<or> GetPseudoType s = kPseudoFileSelectorButton
                \<or> GetPseudoType s = kPseudoSlotted
                \<or> GetPseudoType s = kPseudoPart)),
      GetImplicitShadowCombinatorForMatching =
        (\<lambda>s. if GetPseudoType s = kPseudoSlotted then kShadowSlot
             else if GetPseudoType s = kPseudoPart then kShadowPart
             else if GetPseudoType s = kPseudoWebKitCustomElement
                     \<or> GetPseudoType s = kPseudoBlinkInternalElement
                     \<or> GetPseudoType s = kPseudoCue
                     \<or> GetPseudoType s = kPseudoFileSelectorButton then kUAShadow
             else kSubSelector),
      UniversalSelectorAtom = g_null_atom,
      AnyQName = QName g_null_atom g_null_atom g_star_atom,
      ToIntStrict = (\<lambda>s. (0, False)),
      IsCustomIdent = (\<lambda>s. s \<noteq> ''default''),
      CSSPseudoHasEnabled = True,
      CSSMarkerNestedPseudoElementEnabled = True,
      CSSCaseSensitiveSelectorEnabled = True\<rparr>"

definition sample_externals :: Externals where
  "sample_externals = sample_externals_in kHTMLStandardMode"

definition sample_sheet :: StyleSheetContents where
  "sample_sheet =
     \<lparr>DefaultNamespace_of = g_star_atom, namespaces = [''ns'' \<mapsto> ''http://example.org/ns'']\<rparr>"

definition sample_env :: ParserEnv where
  "sample_env =
     \<lparr>parser_context = \<lparr>Mode = kHTMLStandardMode, IsHTMLDocument = True\<rparr>,
      style_sheet = Some sample_sheet,
      externals = sample_externals\<rparr>"


section \<open>The flags after an attribute selector\<close>

text \<open>
  \<open>ConsumeAttribute\<close> returns the parser's flags as they were, or with the failure
  flag set.
\<close>

lemma ConsumeAttributeMatch_state:
  "fst (snd (ConsumeAttributeMatch st rng)) = st
   \<or> fst (snd (ConsumeAttributeMatch st rng)) = st\<lparr>failed_parsing := True\<rparr>"
  by (simp add: ConsumeAttributeMatch_def case_prod_beta)

lemma ConsumeAttributeFlags_state:
  "fst (snd (ConsumeAttributeFlags ext st rng)) = st
   \<or> fst (snd (ConsumeAttributeFlags ext st rng)) = st\<lparr>failed_parsing := True\<rparr>"
  by (simp add: ConsumeAttributeFlags_def case_prod_beta)

lemma ConsumeAttribute_state:
  "fst (snd (ConsumeAttribute env st rng)) = st
   \<or> fst (snd (ConsumeAttribute env st rng)) = st\<lparr>failed_parsing := True\<rparr>"
proof -
  define P where "P s = (s = st \<or> s = st\<lparr>failed_parsing := True\<rparr>)" for s
  have p0: "P st" by (simp add: P_def)
  have p1: "P (fst (snd (ConsumeAttributeMatch st r)))" for r
    using ConsumeAttributeMatch_state [of st r] by (simp add: P_def)
  have p2: "P (fst (snd (ConsumeAttributeFlags ext (fst (snd (ConsumeAttributeMatch st r))) r')))"
    for ext r r'
    using ConsumeAttributeFlags_state [of ext "fst (snd (ConsumeAttributeMatch st r))" r']
      ConsumeAttributeMatch_state [of st r]
    by (auto simp: P_def)
  have "P (fst (snd (ConsumeAttribute env st rng)))"
    by (simp add: ConsumeAttribute_def Let_def case_prod_beta p0 p1 p2)
  then show ?thesis by (simp add: P_def)
qed

section \<open>The failure flag is sticky\<close>

text \<open>
  A nested parser is sticky when it never clears a failure flag that was set. Every
  function of the parser is sticky when its nested parser is, and so is the parser's
  own nested parser.
\<close>

definition sticky :: "NestedParser \<Rightarrow> bool" where
  "sticky nested =
     (\<forall>call st block. failed_parsing st \<longrightarrow> failed_parsing (fst (snd (nested call st block))))"

lemma stickyD: "sticky nested \<Longrightarrow> failed_parsing st \<Longrightarrow>
  failed_parsing (fst (snd (nested call st block)))"
  by (simp add: sticky_def)

lemma ConsumeAttributeMatch_sticky:
  "failed_parsing st \<Longrightarrow> failed_parsing (fst (snd (ConsumeAttributeMatch st rng)))"
  by (simp add: ConsumeAttributeMatch_def case_prod_beta)

lemma ConsumeAttributeFlags_sticky:
  "failed_parsing st \<Longrightarrow> failed_parsing (fst (snd (ConsumeAttributeFlags ext st rng)))"
  by (simp add: ConsumeAttributeFlags_def case_prod_beta)

lemma ConsumeAttribute_sticky:
  "failed_parsing st \<Longrightarrow> failed_parsing (fst (snd (ConsumeAttribute env st rng)))"
  using ConsumeAttributeMatch_sticky ConsumeAttributeFlags_sticky
  by (simp add: ConsumeAttribute_def Let_def case_prod_beta)

lemma ConsumePseudoArguments_sticky:
  assumes "sticky nested" "failed_parsing st"
  shows "failed_parsing (snd (ConsumePseudoArguments nested env st selector block))"
proof -
  have h: "\<And>c s. failed_parsing s \<Longrightarrow> failed_parsing (fst (snd (nested c s block)))"
    using assms(1) by (simp add: sticky_def)
  show ?thesis
  proof (cases "GetPseudoType selector")
  qed (use h assms(2) in \<open>simp_all add: ConsumePseudoArguments_def Let_def case_prod_beta
         split: option.split\<close>)
qed

lemma ConsumePseudo_sticky:
  assumes "sticky nested" "failed_parsing st"
  shows "failed_parsing (fst (snd (ConsumePseudo nested env st rng)))"
proof -
  have "\<And>s sel b. failed_parsing s \<Longrightarrow>
          failed_parsing (snd (ConsumePseudoArguments nested env s sel b))"
    using assms(1) by (rule ConsumePseudoArguments_sticky)
  then show ?thesis
    using assms(2) by (simp add: ConsumePseudo_def Let_def case_prod_beta)
qed

lemma ConsumeSimpleSelector_sticky:
  assumes "sticky nested" "failed_parsing st"
  shows "failed_parsing (fst (snd (ConsumeSimpleSelector nested env st rng)))"
  using ConsumePseudo_sticky [OF assms, of env rng] ConsumeAttribute_sticky [OF assms(2), of env rng]
    assms(2)
  by (simp add: ConsumeSimpleSelector_def Let_def case_prod_beta split: option.splits)

lemma ConsumeSimpleSelectors_sticky:
  "sticky nested \<Longrightarrow> failed_parsing st \<Longrightarrow>
   failed_parsing (fst (snd (ConsumeSimpleSelectors nested env st rng c)))"
proof (induction nested env st rng c rule: ConsumeSimpleSelectors.induct)
  case (1 nested env st rng c)
  obtain r st1 rng1 where cs: "ConsumeSimpleSelector nested env st rng = (r, st1, rng1)"
    by (cases "ConsumeSimpleSelector nested env st rng") auto
  have f1: "failed_parsing st1"
    using ConsumeSimpleSelector_sticky [OF 1(2) 1(3), of env rng] cs by simp
  show ?case
  proof (cases r)
    case None
    with cs f1 show ?thesis
      by (simp add: ConsumeSimpleSelectors.simps [of nested env st rng])
  next
    case (Some s)
    have f2: "failed_parsing (if Match s = kPseudoElement
                then st1\<lparr>restricting_pseudo_element := GetPseudoType s\<rparr> else st1)"
      using f1 by simp
    from 1(1) [OF cs [symmetric, unfolded Some] refl refl refl refl 1(2) f2] cs Some
    show ?thesis
      by (simp add: ConsumeSimpleSelectors.simps [of nested env st rng] Let_def)
  qed
qed

lemma PrependTypeSelectorIfNeeded_sticky:
  "failed_parsing st \<Longrightarrow>
   failed_parsing (snd (PrependTypeSelectorIfNeeded env st p q e h t))"
  by (simp add: PrependTypeSelectorIfNeeded_def Let_def)

lemma ConsumeCompoundSelector_finish_sticky:
  "failed_parsing (fst (snd r)) \<Longrightarrow>
   failed_parsing (fst (snd (ConsumeCompoundSelector_finish env st0 q e p r)))"
  by (simp add: ConsumeCompoundSelector_finish_def Let_def case_prod_beta
      PrependTypeSelectorIfNeeded_sticky split: option.splits list.splits)

lemma ConsumeCompoundSelector_sticky:
  assumes "sticky nested" "failed_parsing st"
  shows "failed_parsing (fst (snd (ConsumeCompoundSelector nested env st rng)))"
proof -
  let ?n = "ConsumeName (externals env) rng"
  let ?rng1 = "snd (snd (snd ?n))"
  obtain r st1 rng2 where cs: "ConsumeSimpleSelector nested env st ?rng1 = (r, st1, rng2)"
    by (cases "ConsumeSimpleSelector nested env st ?rng1") auto
  have f1: "failed_parsing st1"
    using ConsumeSimpleSelector_sticky [OF assms, of env ?rng1] cs by simp
  have l: "\<And>s rg c. failed_parsing s \<Longrightarrow>
             failed_parsing (fst (snd (ConsumeSimpleSelectors nested env s rg c)))"
    using assms(1) by (rule ConsumeSimpleSelectors_sticky)
  show ?thesis
  proof (cases "fst ?n")
    case True
    then show ?thesis
      using l [OF assms(2)]
      by (simp add: ConsumeCompoundSelector_def Let_def case_prod_beta
          ConsumeCompoundSelector_finish_sticky)
  next
    case False
    then show ?thesis
      using f1 l cs
      by (cases r)
         (simp_all add: ConsumeCompoundSelector_def Let_def case_prod_beta
            ConsumeCompoundSelector_finish_sticky)
  qed
qed

lemma ConsumePartialComplexSelector_sticky:
  "sticky nested \<Longrightarrow> failed_parsing st \<Longrightarrow>
   failed_parsing (fst (snd (ConsumePartialComplexSelector nested env st rng c s f)))"
proof (induction nested env st rng c s f rule: ConsumePartialComplexSelector.induct)
  case (1 nested env st rng c s f)
  obtain r st1 rng1 where cs: "ConsumeCompoundSelector nested env st rng = (r, st1, rng1)"
    by (cases "ConsumeCompoundSelector nested env st rng") auto
  have f1: "failed_parsing st1"
    using ConsumeCompoundSelector_sticky [OF 1(2) 1(3), of env rng] cs by simp
  show ?case
  proof (cases r)
    case None
    with cs f1 show ?thesis
      by (simp add: ConsumePartialComplexSelector.simps [of nested env st rng])
  next
    case (Some n)
    show ?thesis
    proof (cases "f AND kHasPseudoElementForRightmostCompound \<noteq> 0
                  \<or> fst (ConsumeCombinator rng1) = kSubSelector")
      case True
      with cs Some f1 show ?thesis
        by (auto simp: ConsumePartialComplexSelector.simps [of nested env st rng] Let_def)
    next
      case False
      then have a: "f AND kHasPseudoElementForRightmostCompound = 0"
        and b: "fst (ConsumeCombinator rng1) \<noteq> kSubSelector" by auto
      from 1(1) [OF cs [symmetric, unfolded Some] refl refl _ refl refl refl refl b 1(2) f1] a
        cs Some b
      show ?thesis
        by (simp add: ConsumePartialComplexSelector.simps [of nested env st rng] Let_def)
    qed
  qed
qed


lemma ConsumeRelativeSelector_sticky:
  assumes "sticky nested" "failed_parsing st"
  shows "failed_parsing (fst (snd (ConsumeRelativeSelector nested env st rng)))"
  using ConsumePartialComplexSelector_sticky [OF assms] assms(2)
  by (simp add: ConsumeRelativeSelector_def Let_def split: option.splits)














section \<open>The restricting pseudo-element is scoped to the compound\<close>






lemma PrependTypeSelectorIfNeeded_restriction:
  "restricting_pseudo_element (snd (PrependTypeSelectorIfNeeded env st p q e h t))
     = restricting_pseudo_element st"
  by (simp add: PrependTypeSelectorIfNeeded_def Let_def)















section \<open>The scoped flags\<close>

text \<open>
  The flags that the source sets for the time of a nested parse and puts back on the
  way out. A nested parser keeps them when it returns them unchanged; every function of
  the parser does when its nested parser does.
\<close>

definition scoped_flags :: "CSSSelectorParser \<Rightarrow> bool \<times> bool \<times> bool \<times> bool \<times> bool \<times> bool" where
  "scoped_flags st =
     (disallow_pseudo_elements st, resist_default_namespace st, ignore_default_namespace st,
      inside_compound_pseudo st, is_inside_has_argument st,
      is_inside_logical_combination_in_has_argument st)"

definition keeps_flags :: "NestedParser \<Rightarrow> bool" where
  "keeps_flags nested =
     (\<forall>call st block. scoped_flags (fst (snd (nested call st block))) = scoped_flags st)"

lemma ConsumeAttribute_flags:
  "scoped_flags (fst (snd (ConsumeAttribute env st rng))) = scoped_flags st"
  using ConsumeAttribute_state [of env st rng] by (auto simp: scoped_flags_def)

lemma scoped_flags_failed [simp]:
  "scoped_flags (st\<lparr>failed_parsing := b\<rparr>) = scoped_flags st"
  by (simp add: scoped_flags_def)

lemma scoped_flags_restricting [simp]:
  "scoped_flags (st\<lparr>restricting_pseudo_element := r\<rparr>) = scoped_flags st"
  by (simp add: scoped_flags_def)

lemma scoped_flags_found_pseudo [simp]:
  "scoped_flags (st\<lparr>found_pseudo_in_has_argument := b\<rparr>) = scoped_flags st"
  by (simp add: scoped_flags_def)

lemma scoped_flags_found_complex [simp]:
  "scoped_flags (st\<lparr>found_complex_logical_combinations_in_has_argument := b\<rparr>)
     = scoped_flags st"
  by (simp add: scoped_flags_def)

lemma ConsumePseudoArguments_flags:
  assumes "keeps_flags nested"
  shows "scoped_flags (snd (ConsumePseudoArguments nested env st selector block))
           = scoped_flags st"
proof -
  have h: "\<And>c s. scoped_flags (fst (snd (nested c s block))) = scoped_flags s"
    using assms by (simp add: keeps_flags_def)
  show ?thesis
  proof (cases "GetPseudoType selector")
  qed (use h in \<open>simp_all add: ConsumePseudoArguments_def Let_def case_prod_beta
         scoped_flags_def split: option.split\<close>)
qed

lemma ConsumePseudo_flags:
  assumes "keeps_flags nested"
  shows "scoped_flags (fst (snd (ConsumePseudo nested env st rng))) = scoped_flags st"
  using ConsumePseudoArguments_flags [OF assms]
  by (simp add: ConsumePseudo_def Let_def case_prod_beta)

lemma ConsumeSimpleSelector_flags:
  assumes "keeps_flags nested"
  shows "scoped_flags (fst (snd (ConsumeSimpleSelector nested env st rng))) = scoped_flags st"
  using ConsumePseudo_flags [OF assms, of env st rng] ConsumeAttribute_flags [of env st rng]
  by (simp add: ConsumeSimpleSelector_def Let_def case_prod_beta split: option.splits)

















section \<open>The members of a selector list\<close>

text \<open>
  The members of a comma-separated list of complex selectors, as the specification
  describes the list: the first member, and one more member after each comma and the
  whitespace behind it, each parsed by \<open>ConsumeComplexSelector\<close>; the list ends at
  the first member that fails to parse, or where no comma follows. It yields the
  members' results in order, and the parser's flags and the range after the last one.
\<close>

function ComplexSelectorMembers_loop ::
  "NestedParser \<Rightarrow> ParserEnv \<Rightarrow> CSSSelectorParser \<Rightarrow> CSSParserTokenRange
     \<Rightarrow> CSSParserSelector option list \<times> CSSSelectorParser \<times> CSSParserTokenRange" where
  "ComplexSelectorMembers_loop nested env st rng =
     (if \<not> AtEnd rng \<and> GetType (Peek rng) = kCommaToken then
        (case ConsumeComplexSelector nested env st (snd (ConsumeIncludingWhitespace rng)) of
           (None, st1, rng1) \<Rightarrow> ([None], st1, rng1)
         | (Some selector, st1, rng1) \<Rightarrow>
             (let (members, st2, rng2) = ComplexSelectorMembers_loop nested env st1 rng1
              in (Some selector # members, st2, rng2)))
      else ([], st, rng))"
  by pat_completeness auto
termination
proof (relation "measure (\<lambda>(nested, env, st, rng). length rng)", goal_cases)
  case 1
  show ?case by simp
next
  case (2 nested env st rng x1 x2 x3 x4 x5)
  then have "ConsumeComplexSelector nested env st (snd (ConsumeIncludingWhitespace rng))
               = (Some x3, x4, x5)"
    by (metis prod.collapse prod.inject)
  then have "length x5 \<le> length (snd (ConsumeIncludingWhitespace rng))"
    using ConsumeComplexSelector_length
            [of nested env st "snd (ConsumeIncludingWhitespace rng)"] by simp
  moreover have "length (snd (ConsumeIncludingWhitespace rng)) < length rng"
    using 2(1) by (intro ConsumeIncludingWhitespace_length_less) (simp add: AtEnd_def)
  ultimately show ?case by simp
qed

declare ComplexSelectorMembers_loop.simps [simp del]

definition ComplexSelectorMembers ::
  "NestedParser \<Rightarrow> ParserEnv \<Rightarrow> CSSSelectorParser \<Rightarrow> CSSParserTokenRange
     \<Rightarrow> CSSParserSelector option list \<times> CSSSelectorParser \<times> CSSParserTokenRange" where
  "ComplexSelectorMembers nested env st rng =
     (case ConsumeComplexSelector nested env st rng of
        (None, st1, rng1) \<Rightarrow> ([None], st1, rng1)
      | (Some selector, st1, rng1) \<Rightarrow>
          (let (members, st2, rng2) = ComplexSelectorMembers_loop nested env st1 rng1
           in (Some selector # members, st2, rng2)))"

lemma ConsumeComplexSelectorList_loop_members:
  "ConsumeComplexSelectorList_loop nested env st rng acc =
     (case ComplexSelectorMembers_loop nested env st rng of
        (members, st', rng') \<Rightarrow>
          (if None \<in> set members \<or> failed_parsing st' then []
           else acc @ map the members, st', rng'))"
proof (induction nested env st rng acc rule: ConsumeComplexSelectorList_loop.induct)
  case (1 nested env st rng acc)
  show ?case
  proof (cases "\<not> AtEnd rng \<and> GetType (Peek rng) = kCommaToken")
    case False
    then show ?thesis
      by (auto simp: ConsumeComplexSelectorList_loop.simps [of nested env st rng]
          ComplexSelectorMembers_loop.simps [of nested env st rng])
  next
    case True
    obtain r st1 rng1 where
      cs: "ConsumeComplexSelector nested env st (snd (ConsumeIncludingWhitespace rng))
             = (r, st1, rng1)"
      by (cases "ConsumeComplexSelector nested env st (snd (ConsumeIncludingWhitespace rng))")
         auto
    show ?thesis
    proof (cases r)
      case None
      with True cs show ?thesis
        by (simp add: ConsumeComplexSelectorList_loop.simps [of nested env st rng]
            ComplexSelectorMembers_loop.simps [of nested env st rng])
    next
      case (Some s)
      from 1 [OF True cs [symmetric, unfolded Some] refl refl] True cs Some
      show ?thesis
        by (simp add: ConsumeComplexSelectorList_loop.simps [of nested env st rng]
            ComplexSelectorMembers_loop.simps [of nested env st rng] case_prod_beta)
    qed
  qed
qed

lemma ConsumeComplexSelectorList_members:
  "ConsumeComplexSelectorList nested env st rng =
     (case ComplexSelectorMembers nested env st rng of
        (members, st', rng') \<Rightarrow>
          (if None \<in> set members \<or> failed_parsing st' then [] else map the members,
           st', rng'))"
  by (simp add: ConsumeComplexSelectorList_def ComplexSelectorMembers_def
      ConsumeComplexSelectorList_loop_members case_prod_beta
      split: prod.splits option.splits)

lemma map_Some_the: "None \<notin> set ms \<Longrightarrow> map (Some \<circ> the) ms = ms"
  by (induction ms) auto

lemma ConsumeComplexSelector_empty:
  "fst (ConsumeComplexSelector nested env st []) = None"
  by (simp add: ConsumeComplexSelector_def ConsumeCompoundSelector_def ConsumeName_def
      ConsumeSimpleSelector_def Peek_def Let_def)

section \<open>Lemmas for the claims\<close>





text \<open>A compound fails when one of its simple selectors does.\<close>

lemma ConsumeSimpleSelectors_first_fails:
  assumes "sticky nested"
    and "failed_parsing (fst (snd (ConsumeSimpleSelector nested env st rng)))"
  shows "failed_parsing (fst (snd (ConsumeSimpleSelectors nested env st rng c)))"
proof -
  obtain r st1 rng1 where cs: "ConsumeSimpleSelector nested env st rng = (r, st1, rng1)"
    by (cases "ConsumeSimpleSelector nested env st rng") auto
  have f1: "failed_parsing st1" using assms(2) cs by simp
  have "\<And>s rg c. failed_parsing s \<Longrightarrow>
          failed_parsing (fst (snd (ConsumeSimpleSelectors nested env s rg c)))"
    using assms(1) by (rule ConsumeSimpleSelectors_sticky)
  with cs f1 show ?thesis
    by (cases r) (simp_all add: ConsumeSimpleSelectors.simps [of nested env st rng] Let_def)
qed




lemma ConsumeNested_compound_list:
  "ConsumeNested env CallConsumeCompoundSelectorList st block
     = ConsumeCompoundSelectorList (ConsumeNested env) env st block"
  by (simp add: ConsumeNested.simps [of env _ st block] NestedDispatch_def)






section \<open>The calls of the simple-selector loop\<close>

text \<open>
  The flags and the range at each call of \<open>ConsumeSimpleSelector\<close> that the loop of
  \<open>ConsumeCompoundSelector\<close> makes, from the first call to the one that returns
  null.
\<close>

function ConsumeSimpleSelector_calls ::
  "NestedParser \<Rightarrow> ParserEnv \<Rightarrow> CSSSelectorParser \<Rightarrow> CSSParserTokenRange
     \<Rightarrow> (CSSSelectorParser \<times> CSSParserTokenRange) list" where
  "ConsumeSimpleSelector_calls nested env st rng =
     (st, rng) #
     (case ConsumeSimpleSelector nested env st rng of
        (None, st1, rng1) \<Rightarrow> []
      | (Some simple_selector, st1, rng1) \<Rightarrow>
          ConsumeSimpleSelector_calls nested env
            (if Match simple_selector = kPseudoElement
             then st1\<lparr>restricting_pseudo_element := GetPseudoType simple_selector\<rparr>
             else st1) rng1)"
  by pat_completeness auto
termination
proof (relation "measure (\<lambda>(nested, env, st, rng). length rng)", goal_cases)
  case 1
  show ?case by simp
next
  case (2 nested env st rng x1 x2 x3 x4 x5)
  then have "ConsumeSimpleSelector nested env st rng = (Some x3, x4, x5)"
    by (metis prod.collapse prod.inject)
  then show ?case
    using ConsumeSimpleSelector_length_less [of nested env st rng] by simp
qed

declare ConsumeSimpleSelector_calls.simps [simp del]

lemma ConsumeSimpleSelector_calls_failed:
  "sticky nested \<Longrightarrow> (sti, rngi) \<in> set (ConsumeSimpleSelector_calls nested env st rng) \<Longrightarrow>
   failed_parsing (fst (snd (ConsumeSimpleSelector nested env sti rngi))) \<Longrightarrow>
   failed_parsing (fst (snd (ConsumeSimpleSelectors nested env st rng c)))"
proof (induction nested env st rng c rule: ConsumeSimpleSelectors.induct)
  case (1 nested env st rng c)
  obtain r st1 rng1 where cs: "ConsumeSimpleSelector nested env st rng = (r, st1, rng1)"
    by (cases "ConsumeSimpleSelector nested env st rng") auto
  show ?case
  proof (cases "(sti, rngi) = (st, rng)")
    case True
    then show ?thesis
      using ConsumeSimpleSelectors_first_fails [OF 1(2), of env st rng c] 1(4) by simp
  next
    case False
    show ?thesis
    proof (cases r)
      case None
      with cs False 1(3) show ?thesis
        by (simp add: ConsumeSimpleSelector_calls.simps [of nested env st rng])
    next
      case (Some s)
      let ?st2 = "if Match s = kPseudoElement
                  then st1\<lparr>restricting_pseudo_element := GetPseudoType s\<rparr> else st1"
      have m: "(sti, rngi) \<in> set (ConsumeSimpleSelector_calls nested env ?st2 rng1)"
        using cs Some False 1(3)
        by (cases "Match s = kPseudoElement")
           (auto simp: ConsumeSimpleSelector_calls.simps [of nested env st rng])
      from 1(1) [OF cs [symmetric, unfolded Some] refl refl refl refl 1(2) m 1(4)] cs Some
      show ?thesis
        by (simp add: ConsumeSimpleSelectors.simps [of nested env st rng] Let_def)
    qed
  qed
qed

lemma ConsumeSimpleSelector_calls_nonempty:
  "ConsumeSimpleSelector_calls nested env st rng \<noteq> []"
  by (simp add: ConsumeSimpleSelector_calls.simps [of nested env st rng])










section \<open>The calls made at each level of a selector list\<close>

text \<open>
  What each function of the parser hands to the function below it: the flags and the
  range at each call. \<open>ConsumeCompoundSelector\<close> calls \<open>ConsumeSimpleSelector\<close>
  after the name; \<open>ConsumeComplexSelector\<close> calls \<open>ConsumeCompoundSelector\<close> for
  the first compound and after each combinator; the lists call
  \<open>ConsumeComplexSelector\<close> for each member.
\<close>

definition ConsumeCompoundSelector_calls ::
  "NestedParser \<Rightarrow> ParserEnv \<Rightarrow> CSSSelectorParser \<Rightarrow> CSSParserTokenRange
     \<Rightarrow> (CSSSelectorParser \<times> CSSParserTokenRange) list" where
  "ConsumeCompoundSelector_calls nested env st rng =
     ConsumeSimpleSelector_calls nested env st
       (snd (snd (snd (ConsumeName (externals env) rng))))"

function ConsumePartialComplexSelector_calls ::
  "NestedParser \<Rightarrow> ParserEnv \<Rightarrow> CSSSelectorParser \<Rightarrow> CSSParserTokenRange \<Rightarrow> 32 word
     \<Rightarrow> (CSSSelectorParser \<times> CSSParserTokenRange) list" where
  "ConsumePartialComplexSelector_calls nested env st rng previous_compound_flags =
     (st, rng) #
     (case ConsumeCompoundSelector nested env st rng of
        (None, st1, rng1) \<Rightarrow> []
      | (Some next_selector, st1, rng1) \<Rightarrow>
          if previous_compound_flags AND kHasPseudoElementForRightmostCompound \<noteq> 0 then []
          else if fst (ConsumeCombinator rng1) \<noteq> kSubSelector
          then ConsumePartialComplexSelector_calls nested env st1 (snd (ConsumeCombinator rng1))
                 (CompoundFlags (Mode (parser_context env)) next_selector)
          else [])"
  by pat_completeness auto
termination
proof (relation "measure (\<lambda>(nested, env, st, rng, f). length rng)", goal_cases)
  case 1
  show ?case by simp
next
  case (2 nested env st rng previous_compound_flags x1 x2 x3 x4 x5)
  then have "ConsumeCompoundSelector nested env st rng = (Some x3, x4, x5)"
    by (metis prod.collapse prod.inject)
  then have "length x5 < length rng"
    using ConsumeCompoundSelector_length_less [of nested env st rng] by simp
  then show ?case
    using 2 ConsumeCombinator_length [of x5] by simp
qed

declare ConsumePartialComplexSelector_calls.simps [simp del]

definition ConsumeComplexSelector_calls ::
  "NestedParser \<Rightarrow> ParserEnv \<Rightarrow> CSSSelectorParser \<Rightarrow> CSSParserTokenRange
     \<Rightarrow> (CSSSelectorParser \<times> CSSParserTokenRange) list" where
  "ConsumeComplexSelector_calls nested env st rng =
     (st, rng) #
     (case ConsumeCompoundSelector nested env st rng of
        (None, st1, rng1) \<Rightarrow> []
      | (Some selector, st1, rng1) \<Rightarrow>
          if fst (ConsumeCombinator rng1) \<noteq> kSubSelector
          then ConsumePartialComplexSelector_calls nested env
                 (if is_inside_has_argument st1
                     \<and> is_inside_logical_combination_in_has_argument st1
                  then st1\<lparr>found_complex_logical_combinations_in_has_argument := True\<rparr>
                  else st1)
                 (snd (ConsumeCombinator rng1))
                 (PreviousCompoundFlags (Mode (parser_context env)) 0 selector)
          else [])"






text \<open>All the calls of \<open>ConsumeSimpleSelector\<close> made for one complex selector.\<close>

definition ConsumeComplexSelector_simple_calls ::
  "NestedParser \<Rightarrow> ParserEnv \<Rightarrow> CSSSelectorParser \<Rightarrow> CSSParserTokenRange
     \<Rightarrow> (CSSSelectorParser \<times> CSSParserTokenRange) list" where
  "ConsumeComplexSelector_simple_calls nested env st rng =
     concat (map (\<lambda>c. ConsumeCompoundSelector_calls nested env (fst c) (snd c))
               (ConsumeComplexSelector_calls nested env st rng))"


subsection \<open>A failing call fails the caller\<close>

lemma ConsumeCompoundSelector_call_failed:
  assumes "sticky nested"
    and "c \<in> set (ConsumeCompoundSelector_calls nested env st rng)"
    and "failed_parsing (fst (snd (ConsumeSimpleSelector nested env (fst c) (snd c))))"
  shows "failed_parsing (fst (snd (ConsumeCompoundSelector nested env st rng)))"
proof -
  let ?n = "ConsumeName (externals env) rng"
  let ?rng1 = "snd (snd (snd ?n))"
  obtain r st1 rng2 where cs: "ConsumeSimpleSelector nested env st ?rng1 = (r, st1, rng2)"
    by (cases "ConsumeSimpleSelector nested env st ?rng1") auto
  have m: "(fst c, snd c) \<in> set (ConsumeSimpleSelector_calls nested env st ?rng1)"
    using assms(2) by (simp add: ConsumeCompoundSelector_calls_def)
  have l: "\<And>k. failed_parsing (fst (snd (ConsumeSimpleSelectors nested env st ?rng1 k)))"
    using ConsumeSimpleSelector_calls_failed [OF assms(1) m assms(3)] .
  show ?thesis
  proof (cases "fst ?n")
    case True
    then show ?thesis
      using l [of None]
      by (simp add: ConsumeCompoundSelector_def Let_def case_prod_beta
          ConsumeCompoundSelector_finish_sticky)
  next
    case False
    show ?thesis
    proof (cases r)
      case None
      then have "c = (st, ?rng1)"
        using m cs by (simp add: ConsumeSimpleSelector_calls.simps [of nested env st ?rng1])
      then have "failed_parsing st1" using assms(3) cs by simp
      with False cs None show ?thesis
        by (simp add: ConsumeCompoundSelector_def Let_def case_prod_beta)
    next
      case (Some s)
      have "failed_parsing (fst (snd (ConsumeSimpleSelectors nested env
               (if Match s = kPseudoElement
                then st1\<lparr>restricting_pseudo_element := GetPseudoType s\<rparr> else st1)
               rng2 (Some [s]))))"
        using l [of None] cs Some
        by (simp add: ConsumeSimpleSelectors.simps [of nested env st ?rng1] Let_def)
      with False cs Some show ?thesis
        by (cases "Match s = kPseudoElement")
           (simp_all add: ConsumeCompoundSelector_def Let_def case_prod_beta
              ConsumeCompoundSelector_finish_sticky)
    qed
  qed
qed

lemma ConsumePartialComplexSelector_call_failed:
  "sticky nested \<Longrightarrow> c \<in> set (ConsumePartialComplexSelector_calls nested env st rng f) \<Longrightarrow>
   failed_parsing (fst (snd (ConsumeCompoundSelector nested env (fst c) (snd c)))) \<Longrightarrow>
   failed_parsing (fst (snd (ConsumePartialComplexSelector nested env st rng comb sel f)))"
proof (induction nested env st rng comb sel f rule: ConsumePartialComplexSelector.induct)
  case (1 nested env st rng comb sel f)
  obtain r st1 rng1 where cs: "ConsumeCompoundSelector nested env st rng = (r, st1, rng1)"
    by (cases "ConsumeCompoundSelector nested env st rng") auto
  show ?case
  proof (cases "c = (st, rng)")
    case True
    then have f1: "failed_parsing st1" using 1(4) cs by simp
    have "\<And>s rg c sel f. failed_parsing s \<Longrightarrow>
            failed_parsing (fst (snd (ConsumePartialComplexSelector nested env s rg c sel f)))"
      using 1(2) by (rule ConsumePartialComplexSelector_sticky)
    with cs f1 show ?thesis
      by (cases r)
         (simp_all add: ConsumePartialComplexSelector.simps [of nested env st rng] Let_def)
  next
    case False
    show ?thesis
    proof (cases r)
      case None
      with cs False 1(3) show ?thesis
        by (simp add: ConsumePartialComplexSelector_calls.simps [of nested env st rng])
    next
      case (Some n)
      show ?thesis
      proof (cases "f AND kHasPseudoElementForRightmostCompound \<noteq> 0
                    \<or> fst (ConsumeCombinator rng1) = kSubSelector")
        case True
        with cs Some False 1(3) show ?thesis
          by (auto simp: ConsumePartialComplexSelector_calls.simps [of nested env st rng]
              split: if_splits)
      next
        case nt: False
        then have a: "f AND kHasPseudoElementForRightmostCompound = 0"
          and b: "fst (ConsumeCombinator rng1) \<noteq> kSubSelector" by auto
        have m: "c \<in> set (ConsumePartialComplexSelector_calls nested env st1
                   (snd (ConsumeCombinator rng1))
                   (CompoundFlags (Mode (parser_context env)) n))"
          using cs Some False 1(3) a b
          by (simp add: ConsumePartialComplexSelector_calls.simps [of nested env st rng])
        from 1(1) [OF cs [symmetric, unfolded Some] refl refl _ refl refl refl refl b
                      1(2) m 1(4)] a cs Some b
        show ?thesis
          by (simp add: ConsumePartialComplexSelector.simps [of nested env st rng] Let_def)
      qed
    qed
  qed
qed

lemma ConsumeComplexSelector_call_failed:
  assumes "sticky nested"
    and "c \<in> set (ConsumeComplexSelector_calls nested env st rng)"
    and "failed_parsing (fst (snd (ConsumeCompoundSelector nested env (fst c) (snd c))))"
  shows "failed_parsing (fst (snd (ConsumeComplexSelector nested env st rng)))"
proof -
  obtain r st1 rng1 where cs: "ConsumeCompoundSelector nested env st rng = (r, st1, rng1)"
    by (cases "ConsumeCompoundSelector nested env st rng") auto
  show ?thesis
  proof (cases "c = (st, rng)")
    case True
    then have f1: "failed_parsing st1" using assms(3) cs by simp
    have "\<And>s rg c sel f. failed_parsing s \<Longrightarrow>
            failed_parsing (fst (snd (ConsumePartialComplexSelector nested env s rg c sel f)))"
      using assms(1) by (rule ConsumePartialComplexSelector_sticky)
    with cs f1 show ?thesis
      by (cases r) (simp_all add: ConsumeComplexSelector_def Let_def)
  next
    case False
    show ?thesis
    proof (cases r)
      case None
      with cs False assms(2) show ?thesis
        by (simp add: ConsumeComplexSelector_calls_def)
    next
      case (Some n)
      show ?thesis
      proof (cases "fst (ConsumeCombinator rng1) = kSubSelector")
        case True
        with cs Some False assms(2) show ?thesis
          by (simp add: ConsumeComplexSelector_calls_def)
      next
        case b: False
        let ?st2 = "if is_inside_has_argument st1
                       \<and> is_inside_logical_combination_in_has_argument st1
                    then st1\<lparr>found_complex_logical_combinations_in_has_argument := True\<rparr>
                    else st1"
        have m: "c \<in> set (ConsumePartialComplexSelector_calls nested env ?st2
                   (snd (ConsumeCombinator rng1))
                   (PreviousCompoundFlags (Mode (parser_context env)) 0 n))"
          using cs Some False assms(2) b
          by (simp add: ConsumeComplexSelector_calls_def)
        show ?thesis
          using ConsumePartialComplexSelector_call_failed [OF assms(1) m assms(3)] cs Some b
          by (simp add: ConsumeComplexSelector_def Let_def)
      qed
    qed
  qed
qed

lemma ConsumeComplexSelector_simple_call_failed:
  assumes "sticky nested"
    and "c \<in> set (ConsumeComplexSelector_simple_calls nested env st rng)"
    and "failed_parsing (fst (snd (ConsumeSimpleSelector nested env (fst c) (snd c))))"
  shows "failed_parsing (fst (snd (ConsumeComplexSelector nested env st rng)))"
proof -
  obtain d where d: "d \<in> set (ConsumeComplexSelector_calls nested env st rng)"
    and c: "c \<in> set (ConsumeCompoundSelector_calls nested env (fst d) (snd d))"
    using assms(2) by (auto simp: ConsumeComplexSelector_simple_calls_def)
  have "failed_parsing (fst (snd (ConsumeCompoundSelector nested env (fst d) (snd d))))"
    using ConsumeCompoundSelector_call_failed [OF assms(1) c assms(3)] .
  then show ?thesis
    using ConsumeComplexSelector_call_failed [OF assms(1) d] by simp
qed




subsection \<open>The flags at the calls\<close>

lemma Match_setters [simp]:
  "Match (SetSelectorList l s) = Match s"
  "Match (SetArgument a s) = Match s"
  "Match (SetNth x y s) = Match s"
  "Match (SetPartNames ps s) = Match s"
  "Match (SetToggle n v s) = Match s"
  "Match (SetContainsPseudoInsideHasPseudoClass s) = Match s"
  "Match (SetContainsComplexLogicalCombinationsInsideHasPseudoClass s) = Match s"
  "Match (SetValue a b s) = Match s"
  "Match (SetAttribute q am s) = Match s"
  "Match (SetMatch m s) = m"
  by (simp_all add: Match_def SetSelectorList_def SetArgument_def SetNth_def SetPartNames_def
      SetToggle_def SetContainsPseudoInsideHasPseudoClass_def
      SetContainsComplexLogicalCombinationsInsideHasPseudoClass_def SetValue_def
      SetAttribute_def SetMatch_def update_fields_def)







lemma ConsumeSimpleSelector_calls_flags:
  "keeps_flags nested \<Longrightarrow> c \<in> set (ConsumeSimpleSelector_calls nested env st rng) \<Longrightarrow>
   scoped_flags (fst c) = scoped_flags st"
proof (induction nested env st rng rule: ConsumeSimpleSelector_calls.induct)
  case (1 nested env st rng)
  obtain r st1 rng1 where cs: "ConsumeSimpleSelector nested env st rng = (r, st1, rng1)"
    by (cases "ConsumeSimpleSelector nested env st rng") auto
  have f1: "scoped_flags st1 = scoped_flags st"
    using ConsumeSimpleSelector_flags [OF 1(2), of env st rng] cs by simp
  show ?case
  proof (cases "c = (st, rng)")
    case True
    then show ?thesis by simp
  next
    case False
    show ?thesis
    proof (cases r)
      case None
      with cs False 1(3) show ?thesis
        by (simp add: ConsumeSimpleSelector_calls.simps [of nested env st rng])
    next
      case (Some s)
      let ?st2 = "if Match s = kPseudoElement
                  then st1\<lparr>restricting_pseudo_element := GetPseudoType s\<rparr> else st1"
      have m: "c \<in> set (ConsumeSimpleSelector_calls nested env ?st2 rng1)"
        using cs Some False 1(3)
        by (cases "Match s = kPseudoElement")
           (auto simp: ConsumeSimpleSelector_calls.simps [of nested env st rng])
      have "scoped_flags ?st2 = scoped_flags st" using f1 by simp
      with 1(1) [OF cs [symmetric, unfolded Some] refl refl 1(2) m]
      show ?thesis by simp
    qed
  qed
qed





subsection \<open>What the forgiving list returns\<close>




subsection \<open>From a failing call to the whole parse\<close>







subsection \<open>The arguments of the logical pseudo-classes\<close>








section \<open>The claims\<close>

text \<open>
  C1. \<open>ParseSelector\<close> returns the empty vector whenever the input is empty (or
  only whitespace), a member of the comma-separated list fails to parse, the failure
  flag is set after the last member, or tokens are left after the list. In every other
  case what it returns is the whole list of members, each one parsed: never a part of
  the list.
\<close>

theorem ParseSelector_total_failure:
  "(case ComplexSelectorMembers (ConsumeNested env) env NewParser (ConsumeWhitespace rng) of
      (members, st, rng2) \<Rightarrow>
        (None \<in> set members \<or> failed_parsing st \<or> rng2 \<noteq> [] \<longrightarrow> ParseSelector env rng = [])
        \<and> (\<not> (None \<in> set members \<or> failed_parsing st \<or> rng2 \<noteq> []) \<longrightarrow>
             map Some (ParseSelector env rng) = members))
   \<and> (ConsumeWhitespace rng = [] \<longrightarrow> ParseSelector env rng = [])"
proof -
  obtain members st rng2 where
    m: "ComplexSelectorMembers (ConsumeNested env) env NewParser (ConsumeWhitespace rng)
          = (members, st, rng2)"
    by (cases "ComplexSelectorMembers (ConsumeNested env) env NewParser (ConsumeWhitespace rng)")
       auto
  have p: "ParseSelector env rng =
             (if rng2 \<noteq> [] then []
              else if None \<in> set members \<or> failed_parsing st then [] else map the members)"
    by (simp add: ParseSelector_def ConsumeComplexSelectorList_members m AtEnd_def)
  have e: "ConsumeWhitespace rng = [] \<Longrightarrow> members = [None]"
    using m ConsumeComplexSelector_empty [of "ConsumeNested env" env NewParser]
    by (auto simp: ComplexSelectorMembers_def split: prod.splits option.splits)
  show ?thesis
    using p e by (auto simp: m map_Some_the)
qed

theorem ParseSelector_total_failure_witness:
  "snd (snd (ComplexSelectorMembers (ConsumeNested sample_env) sample_env NewParser
       (ConsumeWhitespace [IdentToken ''div'', OtherToken kRightParenthesisToken])))
     = [OtherToken kRightParenthesisToken]
   \<and> ParseSelector sample_env [IdentToken ''div'', OtherToken kRightParenthesisToken] = []
   \<and> ParseSelector sample_env [] = []"
proof -
  have h: "snd (snd (ComplexSelectorMembers (ConsumeNested sample_env) sample_env NewParser
       (ConsumeWhitespace [IdentToken ''div'', OtherToken kRightParenthesisToken])))
     = [OtherToken kRightParenthesisToken]"
    by code_simp
  show ?thesis
    using h ParseSelector_total_failure
              [of sample_env "[IdentToken ''div'', OtherToken kRightParenthesisToken]"]
      ParseSelector_total_failure [of sample_env "[]"]
    by (auto simp: case_prod_beta)
qed






text \<open>
  C6. The An+B argument parser maps \<open>odd\<close> to (2,1), \<open>even\<close> to (2,0), the bare
  integer \<open>3\<close> to (0,3), \<open>2n+1\<close> to (2,1), \<open>-n+3\<close> to (-1,3) and the bare \<open>n\<close>
  to (1,0), and fails on \<open>foo\<close>. The inputs are the token sequences of the CSS Syntax
  tokenizer for these texts: \<open>2n+1\<close> is the dimension \<open>2n\<close> followed by the signed
  number \<open>+1\<close>, \<open>-n+3\<close> is the identifier \<open>-n\<close> followed by the signed number
  \<open>+3\<close>. The results hold whatever the collaborators are.
\<close>

theorem ConsumeANPlusB_examples:
  "ConsumeANPlusB ext [IdentToken ''odd''] = (Some (2, 1), [])
   \<and> ConsumeANPlusB ext [IdentToken ''even''] = (Some (2, 0), [])
   \<and> ConsumeANPlusB ext [NumberToken kIntegerValueType kNoSign 3] = (Some (0, 3), [])
   \<and> ConsumeANPlusB ext [DimensionToken kIntegerValueType kNoSign 2 ''n'',
        NumberToken kIntegerValueType kPlusSign 1] = (Some (2, 1), [])
   \<and> ConsumeANPlusB ext [IdentToken ''-n'', NumberToken kIntegerValueType kPlusSign 3]
        = (Some (- 1, 3), [])
   \<and> ConsumeANPlusB ext [IdentToken ''n''] = (Some (1, 0), [])
   \<and> fst (ConsumeANPlusB ext [IdentToken ''foo'']) = None"
  by (simp add: ConsumeANPlusB_def Consume_def Peek_def EqualIgnoringASCIICase_def
      ToASCIILower_def IsASCIIAlphaCaselessEqual_def ClampTo_int_def
      ConsumeIncludingWhitespace_def int_min_def int_max_def)

theorem ConsumeANPlusB_examples_witness:
  "ConsumeANPlusB sample_externals [IdentToken ''odd''] = (Some (2, 1), [])
   \<and> ConsumeANPlusB sample_externals
         [IdentToken ''-n'', NumberToken kIntegerValueType kPlusSign 3] = (Some (- 1, 3), [])
   \<and> fst (ConsumeANPlusB sample_externals [IdentToken ''foo'']) = None"
  using ConsumeANPlusB_examples [of sample_externals] by simp

text \<open>
  C7. When B is an integer token negated by a minus sign (the delimiter \<open>-\<close> after
  \<open>n\<close>, or the \<open>-\<close> that ends the identifier \<open>n-\<close>) and the token's value clamps
  to the minimum 32-bit integer, the stored B is the maximum 32-bit integer, not the
  minimum that a wrapping negation would give back.
\<close>

theorem ConsumeANPlusB_negate_min_saturates:
  assumes "ClampTo_int v = int_min"
  shows "ConsumeANPlusB ext [DimensionToken kIntegerValueType sg a ''n'',
            DelimiterToken CHR ''-'', NumberToken kIntegerValueType kNoSign v]
           = (Some (ClampTo_int a, int_max), [])
         \<and> ConsumeANPlusB ext [IdentToken ''n-'', NumberToken kIntegerValueType kNoSign v]
           = (Some (1, int_max), [])
         \<and> sint int_max = 2147483647 \<and> sint int_min = - 2147483648
         \<and> - int_min = int_min"
  using assms
  by (simp add: ConsumeANPlusB_def Consume_def Peek_def EqualIgnoringASCIICase_def
      ToASCIILower_def IsASCIIAlphaCaselessEqual_def ConsumeIncludingWhitespace_def
      int_min_def int_max_def)

theorem ConsumeANPlusB_negate_min_saturates_witness:
  "ClampTo_int (- 2147483648) = int_min
   \<and> ConsumeANPlusB sample_externals [IdentToken ''n-'',
        NumberToken kIntegerValueType kNoSign (- 2147483648)] = (Some (1, int_max), [])"
proof -
  have h: "ClampTo_int (- 2147483648) = int_min"
    by (simp add: ClampTo_int_def)
  show ?thesis
    using h ConsumeANPlusB_negate_min_saturates [OF h, of sample_externals] by simp
qed





end
